theory Spec2Isabelle
  imports Main "HOL-Library.Word" "HOL-Library.While_Combinator" "HOL-Library.Sublist"
begin

unbundle bit_operations_syntax

section \<open>Machine types and text\<close>

text \<open>
  \<^verbatim>\<open>sam9boot.c\<close> declares \<^verbatim>\<open>typedef unsigned int bit32\<close> and
  \<^verbatim>\<open>typedef unsigned char byte\<close>. Both are modelled as machine words, so that
  \<^verbatim>\<open>Address += Chunk\<close>, \<^verbatim>\<open>Count - Length\<close> and \<^verbatim>\<open>Value >>= 8\<close> wrap and
  truncate as they do in C. Every byte that travels over the serial line or is printed is a
  \<open>byte\<close>; a C string literal is written \<open>bytes ''...''\<close>.
\<close>

type_synonym byte = "8 word"
type_synonym bit32 = "32 word"

abbreviation bytes :: "string \<Rightarrow> byte list" where
  "bytes s \<equiv> map of_char s"

subsection \<open>The printf conversions the program uses\<close>

text \<open>
  \<^verbatim>\<open>%X\<close> and \<^verbatim>\<open>%x\<close> print an unsigned value in hexadecimal with as many digits
  as it needs; a precision (\<^verbatim>\<open>%5.5X\<close>, \<^verbatim>\<open>%8.8X\<close>, \<^verbatim>\<open>%2.2X\<close>,
  \<^verbatim>\<open>%2.2x\<close>, \<^verbatim>\<open>%6.6x\<close>) is the minimum number of digits, reached by leading
  zeros. Every precision the program gives equals the field width, so no blank padding occurs.
\<close>

definition hexdigit :: "bool \<Rightarrow> nat \<Rightarrow> byte" where
  "hexdigit upper d =
     (if d < 10 then of_nat (48 + d) else if upper then of_nat (55 + d) else of_nat (87 + d))"

fun hexdigits :: "bool \<Rightarrow> nat \<Rightarrow> byte list" where
  "hexdigits upper n =
     (if n = 0 then [] else hexdigits upper (n div 16) @ [hexdigit upper (n mod 16)])"

declare hexdigits.simps [simp del]

definition printf_hex :: "bool \<Rightarrow> nat \<Rightarrow> bit32 \<Rightarrow> byte list" where
  "printf_hex upper prec v =
     (let ds = hexdigits upper (unat v) in replicate (prec - length ds) (of_char CHR ''0'') @ ds)"

subsection \<open>The scanf conversion the program uses\<close>

text \<open>
  \<^verbatim>\<open>sscanf( Response+i, "%X", &Value)\<close> is the C library's, not the program's. It is
  modelled as the library documents it and as glibc on a 64-bit host computes it: white space
  is skipped, a sign and a \<^verbatim>\<open>0x\<close> prefix are optional, the longest run of hexadecimal
  digits is converted by \<^verbatim>\<open>strtoul\<close> (which saturates at \<open>2\<^sup>6\<^sup>4 - 1\<close>) and the
  result is stored through an \<^verbatim>\<open>unsigned int *\<close>, which keeps its low 32 bits. With no
  digit the conversion fails (\<open>None\<close>) and the caller's variable keeps its value.
\<close>

definition isspace :: "byte \<Rightarrow> bool" where
  "isspace c = (c = 32 \<or> (9 \<le> c \<and> c \<le> 13))"

definition xdigit_val :: "byte \<Rightarrow> nat option" where
  "xdigit_val c =
     (if 48 \<le> c \<and> c \<le> 57 then Some (unat c - 48)
      else if 65 \<le> c \<and> c \<le> 70 then Some (unat c - 55)
      else if 97 \<le> c \<and> c \<le> 102 then Some (unat c - 87)
      else None)"

fun strtoul16 :: "nat \<Rightarrow> byte list \<Rightarrow> nat" where
  "strtoul16 acc [] = acc"
| "strtoul16 acc (c # cs) =
     (case xdigit_val c of None \<Rightarrow> acc | Some d \<Rightarrow> strtoul16 (16 * acc + d) cs)"

definition skip_0x :: "byte list \<Rightarrow> byte list" where
  "skip_0x s =
     (case s of
        a # b # c # r \<Rightarrow>
          if a = of_char CHR ''0'' \<and> (b = of_char CHR ''x'' \<or> b = of_char CHR ''X'')
             \<and> xdigit_val c \<noteq> None
          then c # r else s
      | _ \<Rightarrow> s)"

definition sscanf_X :: "byte list \<Rightarrow> bit32 option" where
  "sscanf_X s =
     (let s1 = dropWhile isspace s;
          neg = (s1 \<noteq> [] \<and> hd s1 = of_char CHR ''-'');
          s2 = (if s1 \<noteq> [] \<and> (hd s1 = of_char CHR ''-'' \<or> hd s1 = of_char CHR ''+'')
                then tl s1 else s1);
          s3 = skip_0x s2
      in case s3 of
           [] \<Rightarrow> None
         | c # r \<Rightarrow>
             if xdigit_val c = None then None
             else let n = strtoul16 0 s3
                  in Some (if 2 ^ 64 \<le> n then 0xFFFFFFFF
                           else if neg then - of_nat n else of_nat n))"

section \<open>Program state\<close>

text \<open>
  Every \<^verbatim>\<open>printf\<close> and \<^verbatim>\<open>fprintf( stderr, ...)\<close> of a fixed diagnostic format is
  recorded as one constructor that carries the arguments of the call; output whose bytes
  matter (the echoed response, the trace of a command, a dump row, the terminal's
  pass-through) is recorded as \<open>Text\<close> with the bytes written.
\<close>

datatype message =
    Text "byte list"
  | PartId_is bit32
  | Failed_cpu_unresponsive
  | Loaded_file bit32
  | Requires_f
  | Failed_load_open
  | Failed_load_zero_length
  | Failed_load_calloc bit32
  | Failed_load_read bit32
  | Uploading bit32 bit32
  | Uploaded bit32 bit32
  | Downloading bit32 bit32
  | Downloaded bit32 bit32
  | Failed_download_unresponsive bit32 bit32 bit32
  | Failed_download_short bit32 bit32 bit32
  | Failed_download_calloc bit32 bit32
  | Dump_requires_n
  | Verify_requires_n
  | Verify_error bit32 bit32 bit32
  | Verified bit32 bit32
  | Wrote bit32
  | Error_writing bit32
  | Unable_to_open_for_write
  | Terminal_banner bool
  | Terminal_exit
  | Exit_success
  | Exit_failure

text \<open>
  The command line, as \<^verbatim>\<open>ParseParameters\<close> leaves it. \<open>ParamFileName\<close> and
  \<open>ParamAddrGo\<close> only record whether the pointer is non-null: the program never looks at the
  name, and the go address itself is \<open>ValueAddrGo\<close>.
\<close>

record params =
  ParamFileName :: bool
  ParamAddrGo :: bool
  ValueAddrGo :: bit32
  ValueAddrStart :: bit32
  FlagReceive :: bool
  FlagDump :: bool
  FlagSend :: bool
  FlagCpu :: bool
  FlagVerify :: bool
  FlagQuiet :: bool
  FlagTrace :: bool
  FlagInteractive :: bool

text \<open>
  The mutable globals of the program (\<open>ValueBytes\<close>, \<open>ResponseCount\<close>, \<open>MemoryCount\<close>,
  \<open>MemoryBuffer\<close>, \<open>FileBuffer\<close>), \<^verbatim>\<open>main\<close>'s \<open>Success\<close>, and the world around it:
  \<^item> \<open>tstate\<close> is the target's own state and \<open>pending\<close> the bytes it has sent that the host
    has not read yet; \<open>sent\<close> is everything the host has written to the serial port;
  \<^item> \<open>polls\<close> counts the calls of \<^verbatim>\<open>FileInputAvailable( FileNumberSam9)\<close>, each of which
    returns after 4 ms at the latest;
  \<^item> \<open>stdout\<close> and \<open>stderr\<close> are what has been printed;
  \<^item> \<open>host_file\<close> is the content of the file \<^verbatim>\<open>-f\<close> names (\<open>None\<close> when it cannot be
    opened), \<open>calloc_ok n\<close> says whether \<^verbatim>\<open>calloc( n, 1)\<close> succeeds, \<open>fopen_wb_ok\<close> and
    \<open>fwrite_ok\<close> whether the output file can be opened and written, and \<open>written_file\<close> is
    what \<^verbatim>\<open>-r\<close> wrote.
\<close>

record 'ts state =
  ValueBytes :: bit32
  ResponseCount :: bit32
  MemoryCount :: bit32
  MemoryBuffer :: "byte list"
  FileBuffer :: "byte list"
  Success :: bool
  tstate :: 'ts
  pending :: "byte list"
  sent :: "byte list"
  polls :: nat
  stdout :: "message list"
  stderr :: "message list"
  host_file :: "byte list option"
  calloc_ok :: "bit32 \<Rightarrow> bool"
  fopen_wb_ok :: bool
  fwrite_ok :: bool
  written_file :: "byte list option"

text \<open>
  A target is any function from its state and the bytes of one write to its next state and
  the bytes it answers with. The serial port is a terminal, so the C library flushes a
  \<^verbatim>\<open>fprintf\<close> at the newline that ends it; the one command without a newline is followed
  by \<^verbatim>\<open>fflush\<close>. A write therefore reaches the target before the next read.
\<close>

type_synonym 'ts target = "'ts \<Rightarrow> byte list \<Rightarrow> 'ts \<times> byte list"

definition fprintf_sam9 :: "'ts target \<Rightarrow> byte list \<Rightarrow> 'ts state \<Rightarrow> 'ts state" where
  "fprintf_sam9 T line s =
     (let (ts', reply) = T (tstate s) line
      in s\<lparr>tstate := ts', pending := pending s @ reply, sent := sent s @ line\<rparr>)"

definition printf :: "message \<Rightarrow> 'ts state \<Rightarrow> 'ts state" where
  "printf m s = s\<lparr>stdout := stdout s @ [m]\<rparr>"

definition eprintf :: "message \<Rightarrow> 'ts state \<Rightarrow> 'ts state" where
  "eprintf m s = s\<lparr>stderr := stderr s @ [m]\<rparr>"

section \<open>GetResponse\<close>

text \<open>
  The read loop \<^verbatim>\<open>while (FileInputAvailable( FileNumber) && (n < (sizeof( Response) - 2)))\<close>:
  \<open>read_burst n p\<close> returns the bytes stored from index \<open>n\<close> on, the bytes left in the
  stream, and the number of polls made. The poll is the left operand of \<^verbatim>\<open>&&\<close>, so it is
  made once more when the buffer is full.
\<close>

fun read_burst :: "nat \<Rightarrow> byte list \<Rightarrow> byte list \<times> byte list \<times> nat" where
  "read_burst n [] = ([], [], 1)"
| "read_burst n (c # cs) =
     (if n < 32 - 2
      then (let (r, rest, k) = read_burst (Suc n) cs in (c # r, rest, Suc k))
      else ([], c # cs, 1))"

text \<open>
  The scan \<^verbatim>\<open>for (int i = 0; i < n; i++) switch (State)\<close>. In state 2 the C string that
  starts at \<^verbatim>\<open>Response+i\<close> ends at the first zero byte, which is the terminator
  \<^verbatim>\<open>Response[n] = 0\<close> unless the burst holds a zero byte itself. State 3 has no case.
\<close>

fun scan :: "nat \<Rightarrow> byte list \<Rightarrow> bit32 \<Rightarrow> bit32" where
  "scan State [] Value = Value"
| "scan State (c # cs) Value =
     (if State = 0 then scan (if c = of_char CHR ''0'' then 1 else 0) cs Value
      else if State = 1 then scan (if c = of_char CHR ''x'' then 2 else 0) cs Value
      else if State = 2 then
        scan 3 cs (case sscanf_X (takeWhile (\<lambda>b. b \<noteq> 0) (c # cs)) of
                     Some v \<Rightarrow> v | None \<Rightarrow> Value)
      else scan State cs Value)"

definition GetResponse :: "bool \<Rightarrow> 'ts state \<Rightarrow> bit32 \<times> 'ts state" where
  "GetResponse trace s =
     (let (Response, rest, k) = read_burst 0 (pending s);
          s1 = s\<lparr>pending := rest, polls := polls s + k,
                 ResponseCount := of_nat (length Response)\<rparr>
      in if Response \<noteq> [] then
           (scan 0 Response 0,
            if trace then printf (Text (takeWhile (\<lambda>b. b \<noteq> 0) Response)) s1 else s1)
         else (0, s1))"

text \<open>
  The state the program starts from: the static initialisers of the globals and
  \<^verbatim>\<open>bool Success = true\<close>, around a target in state \<open>ts\<close>, a host file and a byte count
  (\<^verbatim>\<open>-n\<close>, 0 when it was not given).
\<close>

definition initial :: "'ts \<Rightarrow> byte list option \<Rightarrow> bit32 \<Rightarrow> 'ts state" where
  "initial ts file n =
     \<lparr>ValueBytes = n, ResponseCount = 0, MemoryCount = 0, MemoryBuffer = [], FileBuffer = [],
      Success = True, tstate = ts, pending = [], sent = [], polls = 0, stdout = [], stderr = [],
      host_file = file, calloc_ok = (\<lambda>n. True), fopen_wb_ok = True, fwrite_ok = True,
      written_file = None\<rparr>"

text \<open>
  The recurring pair \<^verbatim>\<open>fprintf( FileHandleSam9, "...\n")\<close>, \<^verbatim>\<open>if (...) printf( "...")\<close>:
  the command goes to the target with a newline, and to the console without one when \<open>echo\<close>
  holds.
\<close>

definition send_line :: "'ts target \<Rightarrow> bool \<Rightarrow> byte list \<Rightarrow> 'ts state \<Rightarrow> 'ts state" where
  "send_line T echo cmd s =
     (let s1 = fprintf_sam9 T (cmd @ bytes ''\<newline>'') s
      in if echo then printf (Text cmd) s1 else s1)"

section \<open>LoadMemory\<close>

text \<open>
  The locals of a transfer loop (\<^verbatim>\<open>LoadMemory\<close> and the send loop of \<^verbatim>\<open>main\<close> declare
  the same three) beside the globals; \<open>returned\<close> is set by the \<^verbatim>\<open>return false\<close> inside
  \<^verbatim>\<open>LoadMemory\<close>'s loop. \<open>Chunk\<close> is a \<^verbatim>\<open>bit32\<close> in \<^verbatim>\<open>LoadMemory\<close> and an
  \<^verbatim>\<open>int\<close> in \<^verbatim>\<open>main\<close>; it only ever holds 1 or 4.
\<close>

record 'ts xfer =
  globals :: "'ts state"
  Address :: bit32
  Length :: bit32
  Chunk :: bit32
  returned :: bool

text \<open>
  \<^verbatim>\<open>for (int n = 0; n < Chunk; n++) { MemoryBuffer[MemoryCount++] = Value & 0xff; Value >>= 8; }\<close>
  The buffer holds \<open>Count\<close> bytes. A store past its end is undefined in C; the list update
  leaves the list as it is there. \<open>LoadMemory_in_bounds\<close> below shows that no such store happens
  when \<^verbatim>\<open>main\<close> calls the function.
\<close>

fun store_bytes :: "nat \<Rightarrow> bit32 \<Rightarrow> 'ts state \<Rightarrow> 'ts state" where
  "store_bytes 0 Value s = s"
| "store_bytes (Suc k) Value s =
     store_bytes k (drop_bit 8 Value)
       (s\<lparr>MemoryBuffer := (MemoryBuffer s)[unat (MemoryCount s) := ucast (Value AND 0xff)],
          MemoryCount := MemoryCount s + 1\<rparr>)"

text \<open>
  \<^verbatim>\<open>switch (Chunk)\<close> in \<^verbatim>\<open>LoadMemory\<close>: the read command for one byte or for one word,
  and nothing for any other width.
\<close>

definition read_command :: "'ts target \<Rightarrow> params \<Rightarrow> 'ts xfer \<Rightarrow> 'ts state" where
  "read_command T P l =
     (if Chunk l = 1 then
        send_line T (FlagTrace P)
          (bytes ''o'' @ printf_hex True 5 (Address l) @ bytes '',1#'') (globals l)
      else if Chunk l = 4 then
        send_line T (FlagTrace P)
          (bytes ''w'' @ printf_hex True 5 (Address l) @ bytes '',4#'') (globals l)
      else globals l)"

definition LoadMemory_body ::
  "'ts target \<Rightarrow> params \<Rightarrow> bit32 \<Rightarrow> bit32 \<Rightarrow> 'ts xfer \<Rightarrow> 'ts xfer" where
  "LoadMemory_body T P StartAddress Count l =
     (let (Value, s2) = GetResponse (FlagTrace P) (read_command T P l)
      in if ResponseCount s2 \<noteq> 0 then
           let s3 = store_bytes (unat (Chunk l)) Value s2;
               s4 = (if Length l mod 256 = 0
                     then printf (Downloading StartAddress (Length l)) s3 else s3);
               Length' = Length l + Chunk l
           in l\<lparr>globals := s4, Address := Address l + Chunk l, Length := Length',
                 Chunk := (if Count - Length' < 4 then 1 else Chunk l)\<rparr>
         else
           l\<lparr>globals :=
                 eprintf (Failed_download_unresponsive StartAddress (MemoryCount s2) Count) s2,
               returned := True\<rparr>)"

text \<open>
  The loop \<^verbatim>\<open>while (Length < Count)\<close> may, as far as its text goes, run forever; it is a
  \<open>while_option\<close>, and \<open>None\<close> would be a download that never returns.
\<close>

definition LoadMemory_init :: "bit32 \<Rightarrow> bit32 \<Rightarrow> 'ts state \<Rightarrow> 'ts xfer" where
  "LoadMemory_init StartAddress Count s =
     \<lparr>globals = s\<lparr>MemoryBuffer := replicate (unat Count) 0\<rparr>,
      Address = StartAddress, Length = 0,
      Chunk = (if ValueBytes s > 3 then 4 else 1), returned = False\<rparr>"

definition LoadMemory_loop ::
  "'ts target \<Rightarrow> params \<Rightarrow> bit32 \<Rightarrow> bit32 \<Rightarrow> 'ts xfer \<Rightarrow> 'ts xfer option" where
  "LoadMemory_loop T P StartAddress Count =
     while_option (\<lambda>l. \<not> returned l \<and> Length l < Count)
       (LoadMemory_body T P StartAddress Count)"

definition LoadMemory ::
  "'ts target \<Rightarrow> params \<Rightarrow> bit32 \<Rightarrow> bit32 \<Rightarrow> 'ts state \<Rightarrow> (bool \<times> 'ts state) option" where
  "LoadMemory T P StartAddress Count s =
     (if calloc_ok s Count then
        (case LoadMemory_loop T P StartAddress Count (LoadMemory_init StartAddress Count s) of
           None \<Rightarrow> None
         | Some l \<Rightarrow>
             Some (if returned l then (False, globals l)
                   else if MemoryCount (globals l) = Count then (True, globals l)
                   else (False,
                         eprintf (Failed_download_short StartAddress
                                    (MemoryCount (globals l)) Count) (globals l))))
      else Some (False, eprintf (Failed_download_calloc StartAddress Count)
                          (s\<lparr>MemoryBuffer := []\<rparr>)))"

section \<open>LoadFile\<close>

text \<open>
  \<^verbatim>\<open>ftell\<close>'s result is assigned to a \<^verbatim>\<open>bit32\<close>. \<^verbatim>\<open>fread\<close> delivers at most the
  bytes the file has; the buffer comes zeroed from \<^verbatim>\<open>calloc\<close>.
\<close>

definition LoadFile :: "'ts state \<Rightarrow> bool \<times> 'ts state" where
  "LoadFile s =
     (case host_file s of
        None \<Rightarrow> (False, eprintf Failed_load_open s)
      | Some content \<Rightarrow>
          let FileBytes = (of_nat (length content) :: bit32) in
          if FileBytes \<noteq> 0 then
            let s1 = (if ValueBytes s = 0 then s\<lparr>ValueBytes := FileBytes\<rparr> else s) in
            if calloc_ok s1 (ValueBytes s1) then
              let got = take (unat (ValueBytes s1)) content;
                  s2 = s1\<lparr>FileBuffer := got @ replicate (unat (ValueBytes s1) - length got) 0\<rparr>
              in if length got = unat (ValueBytes s1) then (True, s2)
                 else (False, eprintf (Failed_load_read (ValueBytes s1)) s2)
            else (False, eprintf (Failed_load_calloc (ValueBytes s1)) (s1\<lparr>FileBuffer := []\<rparr>))
          else (False, eprintf Failed_load_zero_length s))"

section \<open>The sections of main\<close>

subsection \<open>Handshake and cpu query\<close>

definition handshake :: "'ts target \<Rightarrow> params \<Rightarrow> 'ts state \<Rightarrow> 'ts state" where
  "handshake T P s =
     (let s1 = send_line T (\<not> FlagQuiet P) (bytes ''#'') s;
          s2 = snd (GetResponse (\<not> FlagQuiet P) s1)
      in if \<not> FlagQuiet P
         then snd (GetResponse True (send_line T True (bytes ''V#'') s2))
         else s2)"

definition stage_cpu :: "'ts target \<Rightarrow> params \<Rightarrow> 'ts state \<Rightarrow> 'ts state" where
  "stage_cpu T P s =
     (let s1 =
            (if FlagCpu P then
               let (PartId, s') = GetResponse True (send_line T True (bytes ''wfffff240,4#'') s)
               in if ResponseCount s' \<noteq> 0 then printf (PartId_is PartId) s'
                  else (eprintf Failed_cpu_unresponsive s')\<lparr>Success := False\<rparr>
             else s)
      in printf (Text (bytes ''\<newline>'')) (snd (GetResponse True s1)))"

subsection \<open>send/verify - load file image\<close>

definition stage_load :: "params \<Rightarrow> 'ts state \<Rightarrow> 'ts state" where
  "stage_load P s =
     (if Success s \<and> (FlagSend P \<or> FlagVerify P) then
        if ParamFileName P then
          (let (ok, s1) = LoadFile s
           in if ok then printf (Loaded_file (ValueBytes s1)) s1 else s1\<lparr>Success := False\<rparr>)
        else (printf Requires_f s)\<lparr>Success := False\<rparr>
      else s)"

subsection \<open>send\<close>

text \<open>
  \<^verbatim>\<open>for (int i = 0; i < Chunk; i++) Value |= FileBuffer[Length++] << (i*8);\<close>
  \<open>pack_bytes k i\<close> runs the \<open>k\<close> iterations that start at \<open>i\<close>, on the pair of \<open>Value\<close> and
  \<open>Length\<close>. The byte is promoted to \<^verbatim>\<open>int\<close> and shifted there; a byte above \<open>0x7f\<close>
  shifted by 24 sets the sign bit, and the conversion to \<^verbatim>\<open>bit32\<close> keeps the bits, which is
  the shift of the 32-bit word. The file buffer holds \<open>ValueBytes\<close> bytes, and the loop reads
  below that bound (\<open>send_in_bounds\<close>).
\<close>

fun pack_bytes :: "nat \<Rightarrow> nat \<Rightarrow> byte list \<Rightarrow> bit32 \<times> bit32 \<Rightarrow> bit32 \<times> bit32" where
  "pack_bytes 0 i buf (Value, Len) = (Value, Len)"
| "pack_bytes (Suc k) i buf (Value, Len) =
     pack_bytes k (Suc i) buf
       (Value OR push_bit (i * 8) (ucast (buf ! unat Len)), Len + 1)"

text \<open>
  \<^verbatim>\<open>switch (Chunk)\<close> in the send loop: the write command for one byte or for one word.
\<close>

definition write_command :: "'ts target \<Rightarrow> params \<Rightarrow> bit32 \<Rightarrow> 'ts xfer \<Rightarrow> 'ts state" where
  "write_command T P Value l =
     (if Chunk l = 1 then
        send_line T (FlagTrace P)
          (bytes ''O'' @ printf_hex True 5 (Address l) @ bytes '','' @
           printf_hex True 2 Value @ bytes ''#'') (globals l)
      else if Chunk l = 4 then
        send_line T (FlagTrace P)
          (bytes ''W'' @ printf_hex True 5 (Address l) @ bytes '','' @
           printf_hex True 8 Value @ bytes ''#'') (globals l)
      else globals l)"

definition send_body :: "'ts target \<Rightarrow> params \<Rightarrow> 'ts xfer \<Rightarrow> 'ts xfer" where
  "send_body T P l =
     (let (Value, Length1) =
            pack_bytes (unat (Chunk l)) 0 (FileBuffer (globals l)) (0, Length l);
          s2 = snd (GetResponse (FlagTrace P) (write_command T P Value l));
          s3 = (if Length1 mod 256 = 0
                then printf (Uploading Length1 (ValueAddrStart P)) s2 else s2)
      in l\<lparr>globals := s3, Address := Address l + Chunk l, Length := Length1,
            Chunk := (if ValueBytes s3 - Length1 < 4 then 1 else Chunk l)\<rparr>)"

definition send_init :: "params \<Rightarrow> 'ts state \<Rightarrow> 'ts xfer" where
  "send_init P s =
     \<lparr>globals = s, Address = ValueAddrStart P, Length = 0,
      Chunk = (if ValueBytes s > 3 then 4 else 1), returned = False\<rparr>"

definition send_loop :: "'ts target \<Rightarrow> params \<Rightarrow> 'ts xfer \<Rightarrow> 'ts xfer option" where
  "send_loop T P = while_option (\<lambda>l. Length l < ValueBytes (globals l)) (send_body T P)"

definition stage_send :: "'ts target \<Rightarrow> params \<Rightarrow> 'ts state \<Rightarrow> 'ts state option" where
  "stage_send T P s =
     (if Success s \<and> FlagSend P then
        (case send_loop T P (send_init P s) of
           None \<Rightarrow> None
         | Some l \<Rightarrow> Some (printf (Uploaded (Length l) (ValueAddrStart P)) (globals l)))
      else Some s)"

subsection \<open>verify/recv/dump - load image buffer\<close>

definition stage_download :: "'ts target \<Rightarrow> params \<Rightarrow> 'ts state \<Rightarrow> 'ts state option" where
  "stage_download T P s =
     (if Success s \<and> (FlagVerify P \<or> FlagReceive P \<or> FlagDump P) then
        if ValueBytes s \<noteq> 0 then
          (case LoadMemory T P (ValueAddrStart P) (ValueBytes s) s of
             None \<Rightarrow> None
           | Some (ok, s1) \<Rightarrow>
               Some (if ok then printf (Downloaded (ValueAddrStart P) (ValueBytes s1)) s1
                     else s1\<lparr>Success := False\<rparr>))
        else Some ((printf Dump_requires_n s)\<lparr>Success := False\<rparr>)
      else Some s)"

subsection \<open>verify data in image buffer\<close>

text \<open>
  \<^verbatim>\<open>for (bit32 i = 0; Success && (i < ValueBytes); i++)\<close>. Both buffers hold \<open>ValueBytes\<close>
  bytes when \<^verbatim>\<open>main\<close> gets here (\<open>LoadFile_length\<close>, \<open>LoadMemory_length\<close>), so every
  index is in range.
\<close>

function verify_loop :: "params \<Rightarrow> bit32 \<Rightarrow> 'ts state \<Rightarrow> 'ts state" where
  "verify_loop P i s =
     (if Success s \<and> i < ValueBytes s then
        verify_loop P (i + 1)
          (if FileBuffer s ! unat i \<noteq> MemoryBuffer s ! unat i
           then (eprintf (Verify_error (ValueAddrStart P) (ValueBytes s) i) s)\<lparr>Success := False\<rparr>
           else s)
      else s)"
  by pat_completeness auto
termination
proof (relation "measure (\<lambda>(P, i, s). unat (ValueBytes s) - unat i)")
  show "wf (measure (\<lambda>(P, i, s). unat (ValueBytes s) - unat i))"
    by simp
next
  fix P :: params and i :: bit32 and s :: "'ts state"
  assume a: "Success s \<and> i < ValueBytes s"
  let ?s' = "if FileBuffer s ! unat i \<noteq> MemoryBuffer s ! unat i
             then (eprintf (Verify_error (ValueAddrStart P) (ValueBytes s) i) s)\<lparr>Success := False\<rparr>
             else s"
  have v: "ValueBytes ?s' = ValueBytes s"
    by (simp add: eprintf_def)
  from a have "unat i < unat (ValueBytes s)"
    by (simp add: word_less_nat_alt)
  moreover from a have "unat (i + 1) = unat i + 1"
    by unat_arith
  ultimately show "((P, i + 1, ?s'), (P, i, s)) \<in> measure (\<lambda>(P, i, s). unat (ValueBytes s) - unat i)"
    using v by simp
qed

declare verify_loop.simps [simp del]

definition stage_verify :: "params \<Rightarrow> 'ts state \<Rightarrow> 'ts state" where
  "stage_verify P s =
     (if Success s \<and> FlagVerify P then
        if ValueBytes s \<noteq> 0 then
          (let s1 = verify_loop P 0 s
           in if Success s1 then printf (Verified (ValueAddrStart P) (ValueBytes s1)) s1 else s1)
        else (printf Verify_requires_n s)\<lparr>Success := False\<rparr>
      else s)"

subsection \<open>recv data in image buffer\<close>

text \<open>
  \<open>written_file\<close> is the file after a complete \<^verbatim>\<open>fwrite\<close>; what a failed one leaves on
  disk is not modelled.
\<close>

definition stage_receive :: "params \<Rightarrow> 'ts state \<Rightarrow> 'ts state" where
  "stage_receive P s =
     (if Success s \<and> FlagReceive P \<and> MemoryCount s \<noteq> 0 then
        if fopen_wb_ok s then
          if fwrite_ok s then
            printf (Wrote (MemoryCount s))
              (s\<lparr>written_file := Some (take (unat (MemoryCount s)) (MemoryBuffer s))\<rparr>)
          else (eprintf (Error_writing (MemoryCount s)) s)\<lparr>Success := False\<rparr>
        else (eprintf Unable_to_open_for_write s)\<lparr>Success := False\<rparr>
      else s)"

subsection \<open>dump data in image buffer\<close>

text \<open>
  The inner loop
  \<^verbatim>\<open>for (int i = 0, j = 0, k = 49; (i < 16) && (Offset < MemoryCount); i++)\<close>
  writes two hexadecimal digits at \<open>j\<close> and \<open>j + 1\<close>, skips a column, and writes the gutter
  character at \<open>k\<close>. \<open>Template\<close> is the 66-byte array: 65 blanks and the terminator.
\<close>

function dump_row ::
  "nat \<Rightarrow> nat \<Rightarrow> nat \<Rightarrow> byte list \<Rightarrow> bit32 \<Rightarrow> bit32 \<Rightarrow> byte list \<Rightarrow> bit32 \<times> byte list" where
  "dump_row i j k buf count Offset Template =
     (if i < 16 \<and> Offset < count then
        let Value = buf ! unat Offset;
            Temp = printf_hex False 2 (ucast Value)
        in dump_row (i + 1) (j + 3) (k + 1) buf count (Offset + 1)
             (Template[j := Temp ! 0, j + 1 := Temp ! 1,
                       k := (if Value > 0x1f \<and> Value < 0x7f then Value else of_char CHR ''.'')])
      else (Offset, Template))"
  by pat_completeness auto
termination
  by (relation "measure (\<lambda>(i, j, k, buf, count, Offset, Template). 16 - i)") auto

declare dump_row.simps [simp del]

lemma dump_row_Offset:
  "Offset \<le> count \<Longrightarrow>
   unat (fst (dump_row i j k buf count Offset Template)) =
     unat Offset + min (16 - i) (unat count - unat Offset)"
proof (induction i j k buf count Offset Template rule: dump_row.induct)
  case (1 i j k buf count Offset Template)
  show ?case
  proof (cases "i < 16 \<and> Offset < count")
    case True
    then have s: "unat (Offset + 1) = unat Offset + 1" and le: "Offset + 1 \<le> count"
      by unat_arith+
    from True have lt: "unat Offset < unat count"
      by (simp add: word_less_nat_alt)
    have "unat (fst (dump_row i j k buf count Offset Template)) =
          unat (Offset + 1) + min (16 - (i + 1)) (unat count - unat (Offset + 1))"
      using True "1.IH" [OF True refl refl le]
      by (subst dump_row.simps) (simp add: Let_def)
    with True s lt show ?thesis
      by (auto simp: min_def)
  next
    case False
    with "1.prems" have "16 \<le> i \<or> unat count = unat Offset"
      by (auto simp: word_less_nat_alt word_le_nat_alt)
    with False show ?thesis
      by (subst dump_row.simps) auto
  qed
qed

text \<open>
  The outer loop \<^verbatim>\<open>while (Offset < MemoryCount)\<close>: one \<^verbatim>\<open>printf( "$%6.6x  %s\n", ...)\<close>
  per row, which prints \<open>Template\<close> up to its terminator; \<open>Addr\<close> is the block's local
  \<open>Address\<close>.
\<close>

function dump_rows :: "byte list \<Rightarrow> bit32 \<Rightarrow> bit32 \<Rightarrow> bit32 \<Rightarrow> message list" where
  "dump_rows buf count Addr Offset =
     (if Offset < count then
        let (Offset1, Template) = dump_row 0 0 49 buf count Offset (replicate 65 32 @ [0])
        in Text (bytes ''$'' @ printf_hex False 6 Addr @ bytes ''  '' @
                 takeWhile (\<lambda>b. b \<noteq> 0) Template @ bytes ''\<newline>'')
           # dump_rows buf count (Addr + 16) Offset1
      else [])"
  by pat_completeness auto
termination
proof (relation "measure (\<lambda>(buf, count, Addr, Offset). unat count - unat Offset)")
  show "wf (measure (\<lambda>(buf, count, Addr, Offset). unat count - unat Offset))"
    by simp
next
  fix buf :: "byte list" and count Addr Offset :: bit32 and x :: "bit32 \<times> byte list"
    and Offset1 :: bit32 and Template :: "byte list"
  assume lt: "Offset < count"
    and x: "x = dump_row 0 0 49 buf count Offset (replicate 65 32 @ [0])"
    and p: "(Offset1, Template) = x"
  from lt have le: "Offset \<le> count" and n: "unat Offset < unat count"
    by (simp_all add: word_less_nat_alt word_le_nat_alt)
  from x p have "Offset1 = fst (dump_row 0 0 49 buf count Offset (replicate 65 32 @ [0]))"
    by (metis fst_conv)
  then have "unat Offset1 = unat Offset + min 16 (unat count - unat Offset)"
    using dump_row_Offset [OF le, of 0 0 49 buf "replicate 65 32 @ [0]"] by simp
  with n show "((buf, count, Addr + 16, Offset1), (buf, count, Addr, Offset))
        \<in> measure (\<lambda>(buf, count, Addr, Offset). unat count - unat Offset)"
    by (auto simp: min_def)
qed

declare dump_rows.simps [simp del]

definition stage_dump :: "params \<Rightarrow> 'ts state \<Rightarrow> 'ts state" where
  "stage_dump P s =
     (if FlagDump P \<and> MemoryCount s \<noteq> 0 then
        s\<lparr>stdout := stdout s @ Text (bytes ''\<newline>'')
                      # dump_rows (MemoryBuffer s) (MemoryCount s) (ValueAddrStart P) 0\<rparr>
      else s)"

section \<open>TerminalEmulator\<close>

text \<open>
  \<^verbatim>\<open>while (FileInputAvailable( FileNumberSam9)) { Key = ...; write( FileNumberConsole, ...); Key = 0; }\<close>
  on the bytes the target has pending, carrying \<open>Key\<close> and the console's output.
\<close>

fun drain :: "byte list \<Rightarrow> byte \<times> message list \<Rightarrow> byte \<times> message list" where
  "drain [] (Key, out) = (Key, out)"
| "drain (c # cs) (Key, out) = drain cs (0, out @ [Text [c]])"

text \<open>
  One pass through the body of the \<^verbatim>\<open>do ... while\<close>. \<open>console\<close> is what the poll of the
  console finds in this pass: \<open>None\<close> when no key is waiting, \<open>Some c\<close> for the byte read.
  \<^verbatim>\<open>write( FileNumberSam9, &Key, sizeof( Key))\<close> reaches the target at once.
\<close>

definition terminal_cycle ::
  "'ts target \<Rightarrow> byte option \<Rightarrow> byte \<times> 'ts state \<Rightarrow> byte \<times> 'ts state" where
  "terminal_cycle T console ks =
     (let (Key, s) = ks;
          (Key1, s1) =
            (case console of
               None \<Rightarrow> (Key, s)
             | Some c \<Rightarrow>
                 let Key' = (if c = 0x0d then of_char CHR ''#'' else c);
                     s' = fprintf_sam9 T [Key'] s
                 in (Key', if Key' > 0x1f \<and> Key' < 0x7f then printf (Text [Key']) s' else s'));
          (Key2, out) = drain (pending s1) (Key1, stdout s1)
      in (Key2, s1\<lparr>pending := [], polls := polls s1 + length (pending s1) + 1, stdout := out\<rparr>))"

text \<open>
  The \<^verbatim>\<open>do ... while ((Key != 0x1b) && (Key != 0x03))\<close> over the console's behaviour, one
  entry per pass. The result says whether the loop has exited; with the console's entries
  used up it is still running.
\<close>

fun terminal_loop ::
  "'ts target \<Rightarrow> byte option list \<Rightarrow> byte \<times> 'ts state \<Rightarrow> bool \<times> byte \<times> 'ts state" where
  "terminal_loop T [] ks = (False, ks)"
| "terminal_loop T (console # rest) ks =
     (let (Key, s) = terminal_cycle T console ks
      in if Key \<noteq> 0x1b \<and> Key \<noteq> 0x03 then terminal_loop T rest (Key, s)
         else (True, Key, s))"

definition TerminalEmulator ::
  "'ts target \<Rightarrow> params \<Rightarrow> byte option list \<Rightarrow> 'ts state \<Rightarrow> bool \<times> 'ts state" where
  "TerminalEmulator T P console s =
     (let s1 = printf (Terminal_banner (ParamAddrGo P)) s;
          s2 =
            (if ParamAddrGo P then
               let a = snd (GetResponse True (fprintf_sam9 T (bytes ''#\<newline>'') s1));
                   b = snd (GetResponse True
                              (fprintf_sam9 T (bytes ''G'' @ printf_hex True 1 (ValueAddrGo P)) a))
               in printf (Text (bytes ''G'' @ printf_hex True 1 (ValueAddrGo P))) b
             else s1);
          (exited, Key, s3) = terminal_loop T console (0, s2)
      in (exited, if exited then printf Terminal_exit s3 else s3))"

section \<open>main\<close>

text \<open>
  \<^verbatim>\<open>main\<close> from the open serial port to the dump: the sections in the order of the source,
  each behind the guard the source gives it.
\<close>

definition transfers :: "'ts target \<Rightarrow> params \<Rightarrow> 'ts state \<Rightarrow> 'ts state option" where
  "transfers T P s =
     (case stage_send T P (stage_load P (stage_cpu T P (handshake T P s))) of
        None \<Rightarrow> None
      | Some s1 \<Rightarrow>
          (case stage_download T P s1 of
             None \<Rightarrow> None
           | Some s2 \<Rightarrow> Some (stage_dump P (stage_receive P (stage_verify P s2)))))"

text \<open>
  The end of \<^verbatim>\<open>main\<close>: the terminal or the go command, and the exit code. The first
  component is \<open>None\<close> while the terminal is still running.
\<close>

definition main ::
  "'ts target \<Rightarrow> params \<Rightarrow> byte option list \<Rightarrow> 'ts state \<Rightarrow> (nat option \<times> 'ts state) option" where
  "main T P console s =
     (case transfers T P s of
        None \<Rightarrow> None
      | Some s1 \<Rightarrow>
          let (finished, s2) =
                (if FlagInteractive P then TerminalEmulator T P console s1
                 else (True,
                       if Success s1 \<and> ParamAddrGo P then
                         let go = bytes ''G'' @ printf_hex True 1 (ValueAddrGo P)
                                  @ bytes ''#\<newline>''
                         in snd (GetResponse True (printf (Text go) (fprintf_sam9 T go s1)))
                       else s1))
          in if finished then
               Some (Some (if Success s2 then 0 else 1),
                     printf (if Success s2 then Exit_success else Exit_failure)
                       (printf (Text (bytes ''\<newline>'')) s2))
             else Some (None, s2))"

section \<open>The states of a loop\<close>

text \<open>
  \<open>iterates b c s\<^sub>0 s\<close>: the loop \<^verbatim>\<open>while (b) c\<close>, started in \<open>s\<^sub>0\<close>, is in state \<open>s\<close> at the top
  of one of its iterations (or at its end).
\<close>

inductive iterates :: "('a \<Rightarrow> bool) \<Rightarrow> ('a \<Rightarrow> 'a) \<Rightarrow> 'a \<Rightarrow> 'a \<Rightarrow> bool" for b c s0 where
  start: "iterates b c s0 s0"
| step: "iterates b c s0 s \<Longrightarrow> b s \<Longrightarrow> iterates b c s0 (c s)"

section \<open>Targets and command lines for the examples\<close>

text \<open>A target that never answers.\<close>

definition silent_target :: "unit target" where
  "silent_target ts line = (ts, [])"

text \<open>
  A target that stores written register values and returns them on reads. Its state maps an
  address to the value last written there. It reads the command letter, the address up to
  the comma and the value after it; a write (\<^verbatim>\<open>W\<close>, \<^verbatim>\<open>O\<close>) stores the value and answers
  with the prompt, a read (\<^verbatim>\<open>w\<close>, \<^verbatim>\<open>o\<close>) answers with the stored value as \<^verbatim>\<open>0x\<close> and
  eight digits and the prompt, and anything else gets the prompt alone.
\<close>

definition register_target :: "(bit32 \<Rightarrow> bit32) target" where
  "register_target regs line =
     (case line of
        [] \<Rightarrow> (regs, [])
      | c # rest \<Rightarrow>
          let a = (of_nat (strtoul16 0 rest) :: bit32);
              v = (of_nat (strtoul16 0 (drop 1 (dropWhile (\<lambda>b. b \<noteq> of_char CHR '','') rest)))
                     :: bit32)
          in if c = of_char CHR ''W'' \<or> c = of_char CHR ''O'' then
               (regs(a := v), bytes ''\<newline>>'')
             else if c = of_char CHR ''w'' \<or> c = of_char CHR ''o'' then
               (regs, bytes ''\<newline>0x'' @ printf_hex True 8 (regs a) @ bytes ''\<newline>>'')
             else (regs, bytes ''>''))"

text \<open>
  A target that answers a number of commands, each with the word \<^verbatim>\<open>0x44434241\<close> and the
  prompt, and then falls silent. Its state is the number of answers it still gives.
\<close>

definition gap_target :: "nat target" where
  "gap_target k line =
     (if k = 0 then (0, []) else (k - 1, bytes ''\<newline>0x44434241\<newline>>''))"

text \<open>
  The command line \<^verbatim>\<open>-f=file -a=address -q\<close>, to which the examples add their flags.
\<close>

definition quiet_run :: "bit32 \<Rightarrow> params" where
  "quiet_run a =
     \<lparr>ParamFileName = True, ParamAddrGo = False, ValueAddrGo = 0, ValueAddrStart = a,
      FlagReceive = False, FlagDump = False, FlagSend = False, FlagCpu = False,
      FlagVerify = False, FlagQuiet = True, FlagTrace = False, FlagInteractive = False\<rparr>"

section \<open>The layout of a dump row, stated directly\<close>

text \<open>
  What \<^verbatim>\<open>printf( "$%6.6x  %s\n", Address, Template)\<close> is to print for the bytes \<open>bs\<close> of one
  row (at most 16). \<open>dump_template\<close> is the 65 columns of \<open>Template\<close>: each byte as two
  hexadecimal digits and a blank, blanks for the hex columns the row does not fill, one more
  blank, the gutter with one character per byte (the byte itself when it is above \<open>0x1f\<close> and
  below \<open>0x7f\<close>, a dot otherwise), and blanks for the gutter columns the row does not fill.
  \<open>dump_line\<close> puts the address label and two blanks before it and a newline after it, and
  \<open>dump_format\<close> cuts an image into rows of 16 bytes, the label growing by 16 from row to row.
\<close>

definition dump_template :: "byte list \<Rightarrow> byte list" where
  "dump_template bs =
     concat (map (\<lambda>b. printf_hex False 2 (ucast b) @ bytes '' '') bs) @
     replicate (3 * (16 - length bs)) (of_char CHR '' '') @ bytes '' '' @
     map (\<lambda>b. if 0x1f < b \<and> b < 0x7f then b else of_char CHR ''.'') bs @
     replicate (16 - length bs) (of_char CHR '' '')"

definition dump_line :: "bit32 \<Rightarrow> byte list \<Rightarrow> byte list" where
  "dump_line a bs =
     bytes ''$'' @ printf_hex False 6 a @ bytes ''  '' @ dump_template bs @ bytes ''\<newline>''"

fun dump_format :: "bit32 \<Rightarrow> byte list \<Rightarrow> byte list list" where
  "dump_format a bs =
     (if bs = [] then [] else dump_line a (take 16 bs) # dump_format (a + 16) (drop 16 bs))"

declare dump_format.simps [simp del]

section \<open>The first differing offset, stated directly\<close>

text \<open>
  The lowest offset at which two buffers differ, \<open>None\<close> when they agree wherever both have
  a byte.
\<close>

fun first_mismatch :: "byte list \<Rightarrow> byte list \<Rightarrow> nat option" where
  "first_mismatch (x # xs) (y # ys) =
     (if x \<noteq> y then Some 0 else map_option Suc (first_mismatch xs ys))"
| "first_mismatch xs ys = None"

section \<open>Facts about GetResponse\<close>

lemma replicate_numeral: "replicate (numeral k) x = x # replicate (pred_numeral k) x"
  by (simp add: numeral_eq_Suc)

lemma unat_of_nat32: "n < 2 ^ 32 \<Longrightarrow> unat (of_nat n :: bit32) = n"
  by (simp add: unat_of_nat)

lemma read_burst_eq:
  "read_burst n p = (take (30 - n) p, drop (30 - n) p, Suc (min (30 - n) (length p)))"
proof (induction p arbitrary: n)
  case Nil
  show ?case by simp
next
  case (Cons c cs)
  show ?case
  proof (cases "n < 30")
    case True
    then obtain m where m: "30 - n = Suc m" and m': "30 - Suc n = m"
      by (cases "30 - n") auto
    with True Cons [of "Suc n"] show ?thesis
      by simp
  next
    case False
    then show ?thesis by simp
  qed
qed

lemma GetResponse_eq:
  "GetResponse trace s =
     (scan 0 (take 30 (pending s)) 0,
      s\<lparr>pending := drop 30 (pending s),
        polls := polls s + Suc (min (length (pending s)) 30),
        ResponseCount := of_nat (min (length (pending s)) 30),
        stdout := (if trace \<and> pending s \<noteq> []
                   then stdout s @ [Text (takeWhile (\<lambda>b. b \<noteq> 0) (take 30 (pending s)))]
                   else stdout s)\<rparr>)"
  by (cases "pending s") (simp_all add: GetResponse_def read_burst_eq Let_def printf_def min_def)

lemma scan_no_marker:
  "(\<not> sublist (bytes ''0x'') b \<longrightarrow> scan 0 b v = v) \<and>
   (\<not> sublist (bytes ''0x'') (of_char CHR ''0'' # b) \<longrightarrow> scan (Suc 0) b v = v)"
proof (induction b)
  case Nil
  show ?case by simp
next
  case (Cons c cs)
  then show ?case
    by (auto simp: sublist_Cons_right)
qed

lemma ResponseCount_zero_iff:
  "ResponseCount (snd (GetResponse trace s)) = 0 \<longleftrightarrow> pending s = []"
proof -
  have "unat (of_nat (min (length (pending s)) 30) :: bit32) = min (length (pending s)) 30"
    by (rule unat_of_nat32) (simp add: min_def)
  then have "(of_nat (min (length (pending s)) 30) :: bit32) = 0
             \<longleftrightarrow> min (length (pending s)) 30 = 0"
    by (metis unat_eq_zero)
  then show ?thesis
    by (auto simp: GetResponse_eq min_def)
qed

section \<open>Facts about the terminal\<close>

lemma drain_eq:
  "drain p (Key, out) = (if p = [] then Key else 0, out @ map (\<lambda>c. Text [c]) p)"
  by (induction p arbitrary: Key out) auto

section \<open>Facts about the hexadecimal conversions\<close>

lemma unat_of_nat8: "n < 256 \<Longrightarrow> unat (of_nat n :: byte) = n"
  by (simp add: unat_of_nat)

lemma unat_hexdigit:
  "d < 16 \<Longrightarrow> unat (hexdigit u d) = (if d < 10 then 48 + d else if u then 55 + d else 87 + d)"
proof -
  assume "d < 16"
  then have b: "48 + d < 256" "55 + d < 256" "87 + d < 256"
    by simp_all
  have a: "unat (of_nat (48 + d) :: byte) = 48 + d"
    "unat (of_nat (55 + d) :: byte) = 55 + d" "unat (of_nat (87 + d) :: byte) = 87 + d"
    by (rule unat_of_nat8, rule b)+
  show ?thesis
    unfolding hexdigit_def by (cases "d < 10"; cases u; simp only: if_True if_False a)
qed

lemma hexdigit_nonzero: "d < 16 \<Longrightarrow> hexdigit u d \<noteq> 0"
proof
  assume d: "d < 16" and z: "hexdigit u d = 0"
  from z have "unat (hexdigit u d) = 0"
    by simp
  with unat_hexdigit [OF d, of u] show False
    by (simp split: if_splits)
qed

lemma unat_ucast_byte: "unat (ucast (b :: byte) :: bit32) = unat b"
proof -
  have "unat b < 2 ^ LENGTH(8)"
    by (rule unsigned_less)
  then have "unat b < 2 ^ 32"
    by simp
  then show ?thesis
    by (simp add: unsigned_ucast_eq take_bit_nat_eq_self)
qed

lemma hexdigits_nonzero: "c \<in> set (hexdigits u n) \<Longrightarrow> c \<noteq> 0"
proof (induction u n rule: hexdigits.induct)
  case (1 upper n)
  show ?case
  proof (cases "n = 0")
    case True
    with "1.prems" show ?thesis
      by (simp add: hexdigits.simps)
  next
    case False
    with "1.prems" have "c \<in> set (hexdigits upper (n div 16)) \<or> c = hexdigit upper (n mod 16)"
      by (subst (asm) hexdigits.simps) auto
    with False "1.IH" show ?thesis
      using hexdigit_nonzero [of "n mod 16" upper] by auto
  qed
qed

lemma length_hexdigits_le: "n < 16 ^ k \<Longrightarrow> length (hexdigits u n) \<le> k"
proof (induction k arbitrary: n)
  case 0
  then show ?case
    by (simp add: hexdigits.simps)
next
  case (Suc k)
  show ?case
  proof (cases "n = 0")
    case True
    then show ?thesis
      by (simp add: hexdigits.simps)
  next
    case False
    from Suc.prems have "n div 16 < 16 ^ k"
      by (simp add: less_mult_imp_div_less mult.commute)
    from Suc.IH [OF this] False show ?thesis
      by (subst hexdigits.simps) simp
  qed
qed

lemma length_printf_hex:
  "length (printf_hex u p v) = max p (length (hexdigits u (unat v)))"
  by (simp add: printf_hex_def Let_def)

lemma printf_hex_nonzero: "c \<in> set (printf_hex u p v) \<Longrightarrow> c \<noteq> 0"
  by (auto simp: printf_hex_def Let_def dest: hexdigits_nonzero)

lemma length_hex_byte: "length (printf_hex u 2 (ucast (b :: byte))) = 2"
proof -
  have "unat b < 2 ^ LENGTH(8)"
    by (rule unsigned_less)
  then have "unat (ucast b :: bit32) < 16 ^ 2"
    by (simp add: unat_ucast_byte)
  from length_hexdigits_le [OF this] show ?thesis
    by (simp add: length_printf_hex)
qed

section \<open>Facts about the dump\<close>

lemma length_hex_part:
  "length (concat (map (\<lambda>b. printf_hex False 2 (ucast b) @ bytes '' '') (bs :: byte list)))
   = 3 * length bs"
  by (induction bs) (simp_all add: length_hex_byte)

lemma two_list: "length h = 2 \<Longrightarrow> h ! 0 # h ! Suc 0 # xs = h @ xs"
  by (cases h; cases "tl h") auto

lemma template_update:
  assumes "length A = a" and "k = a + 3 + length B + 1 + length G"
  shows "(A @ (x # y # z # B) @ [w] @ G @ (q # R) @ E)[a := d0, a + 1 := d1, k := g]
         = A @ (d0 # d1 # z # B) @ [w] @ G @ (g # R) @ E"
  using assms by (simp add: list_update_append)

lemma dump_template_step:
  assumes "length bs < 16"
  shows "(dump_template bs @ [0])
           [3 * length bs := printf_hex False 2 (ucast v) ! 0,
            3 * length bs + 1 := printf_hex False 2 (ucast v) ! 1,
            49 + length bs := (if v > 0x1f \<and> v < 0x7f then v else of_char CHR ''.'')]
         = dump_template (bs @ [v]) @ [0]"
proof -
  let ?h = "printf_hex False 2 (ucast v)"
  let ?A = "concat (map (\<lambda>b. printf_hex False 2 (ucast b) @ bytes '' '') bs)"
  let ?G = "map (\<lambda>b. if 0x1f < b \<and> b < 0x7f then b else of_char CHR ''.'') bs"
  let ?g = "if v > 0x1f \<and> v < 0x7f then v else of_char CHR ''.''"
  obtain m where m: "16 - length bs = Suc m"
    using assms by (cases "16 - length bs") auto
  then have m': "15 - length bs = m"
    by simp
  have lA: "length ?A = 3 * length bs"
    by (rule length_hex_part)
  have k: "49 + length bs
           = 3 * length bs + 3 + length (replicate (3 * m) (32 :: byte)) + 1 + length ?G"
    using m by simp
  have a: "(dump_template bs @ [0])
           = ?A @ (32 # 32 # 32 # replicate (3 * m) 32) @ [32] @ ?G @ (32 # replicate m 32) @ [0]"
    by (simp add: dump_template_def m replicate_add replicate_numeral)
  have b: "?A @ (?h ! 0 # ?h ! 1 # 32 # replicate (3 * m) 32) @ [32] @ ?G
              @ (?g # replicate m 32) @ [0]
           = dump_template (bs @ [v]) @ [0]"
    by (simp add: dump_template_def m' two_list length_hex_byte)
  show ?thesis
    unfolding a b [symmetric] by (rule template_update [OF lA k])
qed

lemma dump_template_nonzero: "c \<in> set (dump_template bs) \<Longrightarrow> c \<noteq> 0"
  by (auto simp: dump_template_def split: if_splits dest!: printf_hex_nonzero)

lemma dump_row_eq:
  "j = 3 * i \<Longrightarrow> k = 49 + i \<Longrightarrow> Template = dump_template done @ [0] \<Longrightarrow> length done = i \<Longrightarrow>
   Offset \<le> count \<Longrightarrow> unat count \<le> length buf \<Longrightarrow>
   snd (dump_row i j k buf count Offset Template) =
     dump_template (done @ take (16 - i) (drop (unat Offset) (take (unat count) buf))) @ [0]"
proof (induction i j k buf count Offset Template arbitrary: "done" rule: dump_row.induct)
  case (1 i j k buf count Offset Template)
  let ?T = "take (unat count) buf"
  show ?case
  proof (cases "i < 16 \<and> Offset < count")
    case True
    then have s: "unat (Offset + 1) = unat Offset + 1" and le: "Offset + 1 \<le> count"
      by unat_arith+
    from True have lt: "unat Offset < unat count"
      by (simp add: word_less_nat_alt)
    with "1.prems" have d: "drop (unat Offset) ?T = buf ! unat Offset # drop (Suc (unat Offset)) ?T"
      by (simp add: Cons_nth_drop_Suc [symmetric])
    from True obtain m where m: "16 - i = Suc m" and m2: "15 - i = m"
      by (cases "16 - i") auto
    let ?v = "buf ! unat Offset"
    let ?Template' = "Template[j := printf_hex False 2 (ucast ?v) ! 0,
                 j + 1 := printf_hex False 2 (ucast ?v) ! 1,
                 k := (if ?v > 0x1f \<and> ?v < 0x7f then ?v else of_char CHR ''.'')]"
    have st: "?Template' = dump_template (done @ [?v]) @ [0]"
      using dump_template_step [of "done" ?v] True "1.prems" by simp
    have unfold: "dump_row i j k buf count Offset Template
                  = dump_row (i + 1) (j + 3) (k + 1) buf count (Offset + 1) ?Template'"
      using True by (subst dump_row.simps) (simp add: Let_def)
    have "snd (dump_row (i + 1) (j + 3) (k + 1) buf count (Offset + 1) ?Template') =
          dump_template ((done @ [?v])
            @ take (16 - (i + 1)) (drop (unat (Offset + 1)) ?T)) @ [0]"
    proof (rule "1.IH" [OF True refl refl])
      show "j + 3 = 3 * (i + 1)" and "k + 1 = 49 + (i + 1)"
        using "1.prems" by simp_all
      show "?Template' = dump_template (done @ [?v]) @ [0]"
        by (rule st)
      show "length (done @ [?v]) = i + 1"
        using "1.prems" by simp
      show "Offset + 1 \<le> count"
        by (rule le)
      show "unat count \<le> length buf"
        using "1.prems" by simp
    qed
    then have "snd (dump_row i j k buf count Offset Template) =
          dump_template ((done @ [?v])
            @ take (16 - (i + 1)) (drop (unat (Offset + 1)) ?T)) @ [0]"
      by (simp only: unfold)
    with m m2 d s show ?thesis
      by simp
  next
    case False
    with "1.prems" have "16 \<le> i \<or> unat count = unat Offset"
      by (auto simp: word_less_nat_alt word_le_nat_alt)
    with False "1.prems" show ?thesis
      by (subst dump_row.simps) auto
  qed
qed

lemma dump_rows_eq:
  "Offset \<le> count \<Longrightarrow> unat count \<le> length buf \<Longrightarrow>
   dump_rows buf count a Offset =
     map Text (dump_format a (drop (unat Offset) (take (unat count) buf)))"
proof (induction buf count a Offset rule: dump_rows.induct)
  case (1 buf count Addr Offset)
  let ?T = "take (unat count) buf"
  let ?r = "dump_row 0 0 49 buf count Offset (replicate 65 32 @ [0])"
  show ?case
  proof (cases "Offset < count")
    case True
    then have lt: "unat Offset < unat count"
      by (simp add: word_less_nat_alt)
    have e: "dump_template [] @ [0] = replicate 65 32 @ [0]"
      by (simp add: dump_template_def replicate_numeral)
    have "snd ?r = dump_template ([] @ take (16 - 0) (drop (unat Offset) ?T)) @ [0]"
    proof (rule dump_row_eq)
      show "replicate 65 32 @ [0] = dump_template [] @ [0]"
        by (rule e [symmetric])
    qed (use "1.prems" in simp_all)
    then have sn: "snd ?r = dump_template (take 16 (drop (unat Offset) ?T)) @ [0]"
      by (simp only: append_Nil diff_zero)
    have tw: "takeWhile (\<lambda>b. b \<noteq> 0) (snd ?r) = dump_template (take 16 (drop (unat Offset) ?T))"
      unfolding sn by (simp add: dump_template_nonzero)
    have fs: "unat (fst ?r) = unat Offset + min 16 (unat count - unat Offset)"
      using dump_row_Offset [OF "1.prems"(1), of 0 0 49 buf "replicate 65 32 @ [0]"] by simp
    then have le': "fst ?r \<le> count"
      using lt by (auto simp: word_le_nat_alt min_def)
    have dr: "drop (16 + unat Offset) ?T = drop (unat (fst ?r)) ?T"
      using "1.prems" lt by (auto simp: fs min_def add.commute)
    have ne: "drop (unat Offset) ?T \<noteq> []"
      using "1.prems" lt by simp
    have ih: "dump_rows buf count (Addr + 16) (fst ?r)
              = map Text (dump_format (Addr + 16) (drop (unat (fst ?r)) ?T))"
      by (rule "1.IH" [OF True refl _ le' "1.prems"(2), of "snd ?r"]) simp
    show ?thesis
      using True ne
      by (subst dump_rows.simps, subst dump_format.simps)
         (simp add: Let_def split_beta ih tw dr dump_line_def)
  next
    case False
    with "1.prems" have "unat Offset = unat count"
      by (simp add: word_less_nat_alt word_le_nat_alt)
    with False "1.prems" show ?thesis
      by (subst dump_rows.simps, subst dump_format.simps) simp
  qed
qed

lemma rows_arith: "0 < (n::nat) \<Longrightarrow> Suc ((n - 16 + 15) div 16) = (n + 15) div 16"
proof (cases "n < 16")
  case True
  assume "0 < n"
  with True have "(n + 15) div 16 = 1" "n - 16 + 15 = 15"
    by simp_all
  then show ?thesis
    by simp
next
  case False
  then have "n + 15 = (n - 16 + 15) + 16"
    by simp
  then have "(n + 15) div 16 = ((n - 16 + 15) + 16) div 16"
    by (rule arg_cong)
  also have "\<dots> = (n - 16 + 15) div 16 + 1"
    by (rule div_add_self2) simp
  finally show ?thesis
    by simp
qed

lemma length_dump_format: "length (dump_format a bs) = (length bs + 15) div 16"
proof (induction a bs rule: dump_format.induct)
  case (1 a bs)
  show ?case
  proof (cases "bs = []")
    case True
    then show ?thesis
      by (simp add: dump_format.simps)
  next
    case False
    have "dump_format a bs = dump_line a (take 16 bs) # dump_format (a + 16) (drop 16 bs)"
      using False by (subst dump_format.simps) simp
    then have "length (dump_format a bs) = Suc ((length bs - 16 + 15) div 16)"
      using "1.IH" [OF False] by simp
    moreover from False have "0 < length bs"
      by simp
    ultimately show ?thesis
      by (simp only: rows_arith)
  qed
qed

section \<open>Facts about verify\<close>

lemma first_mismatch_None:
  "length xs = length ys \<Longrightarrow> first_mismatch xs ys = None \<longleftrightarrow> xs = ys"
  by (induction xs ys rule: first_mismatch.induct) auto

lemma first_mismatch_Some:
  "first_mismatch xs ys = Some k \<Longrightarrow>
   k < length xs \<and> k < length ys \<and> xs ! k \<noteq> ys ! k \<and> (\<forall>j<k. xs ! j = ys ! j)"
proof (induction xs ys arbitrary: k rule: first_mismatch.induct)
  case (1 x xs y ys)
  show ?case
  proof (cases "x = y")
    case True
    with "1.prems" obtain k' where k: "first_mismatch xs ys = Some k'" "k = Suc k'"
      by auto
    from "1.IH" [OF _ k(1)] True k(2) show ?thesis
      by (auto simp: nth_Cons split: nat.split)
  next
    case False
    with "1.prems" show ?thesis
      by auto
  qed
qed simp_all

lemma verify_loop_stop: "\<not> Success s \<Longrightarrow> verify_loop P i s = s"
  by (subst verify_loop.simps) simp

lemma verify_loop_eq:
  "Success s \<Longrightarrow> i \<le> ValueBytes s \<Longrightarrow>
   length (FileBuffer s) = unat (ValueBytes s) \<Longrightarrow>
   length (MemoryBuffer s) = unat (ValueBytes s) \<Longrightarrow>
   verify_loop P i s =
     (case first_mismatch (drop (unat i) (FileBuffer s)) (drop (unat i) (MemoryBuffer s)) of
        None \<Rightarrow> s
      | Some k \<Rightarrow>
          (eprintf (Verify_error (ValueAddrStart P) (ValueBytes s) (i + of_nat k)) s)
            \<lparr>Success := False\<rparr>)"
proof (induction P i s rule: verify_loop.induct)
  case (1 P i s)
  let ?F = "FileBuffer s" and ?M = "MemoryBuffer s"
  show ?case
  proof (cases "i < ValueBytes s")
    case True
    then have lt: "unat i < unat (ValueBytes s)"
      by (simp add: word_less_nat_alt)
    from True have s: "unat (i + 1) = Suc (unat i)" and le: "i + 1 \<le> ValueBytes s"
      by unat_arith+
    from lt "1.prems" have dF: "drop (unat i) ?F = ?F ! unat i # drop (Suc (unat i)) ?F"
      and dM: "drop (unat i) ?M = ?M ! unat i # drop (Suc (unat i)) ?M"
      by (simp_all add: Cons_nth_drop_Suc)
    show ?thesis
    proof (cases "?F ! unat i = ?M ! unat i")
      case same: True
      have "verify_loop P i s = verify_loop P (i + 1) s"
        using True same "1.prems"(1) by (subst verify_loop.simps) simp
      also have "\<dots> =
        (case first_mismatch (drop (unat (i + 1)) ?F) (drop (unat (i + 1)) ?M) of
           None \<Rightarrow> s
         | Some k \<Rightarrow>
             (eprintf (Verify_error (ValueAddrStart P) (ValueBytes s) (i + 1 + of_nat k)) s)
               \<lparr>Success := False\<rparr>)"
        using "1.IH" [OF conjI [OF "1.prems"(1) True]] same "1.prems" le by simp
      finally show ?thesis
        using same by (simp add: dF dM s add.assoc split: option.split)
    next
      case False
      have "verify_loop P i s =
            verify_loop P (i + 1)
              ((eprintf (Verify_error (ValueAddrStart P) (ValueBytes s) i) s)\<lparr>Success := False\<rparr>)"
        using True False "1.prems"(1) by (subst verify_loop.simps) simp
      also have "\<dots> = (eprintf (Verify_error (ValueAddrStart P) (ValueBytes s) i) s)\<lparr>Success := False\<rparr>"
        by (rule verify_loop_stop) simp
      finally show ?thesis
        using False by (simp add: dF dM)
    qed
  next
    case False
    with "1.prems" have "unat i = unat (ValueBytes s)"
      by (simp add: word_less_nat_alt word_le_nat_alt)
    with False "1.prems" show ?thesis
      by (subst verify_loop.simps) simp
  qed
qed

lemma LoadFile_length:
  assumes "LoadFile s = (True, s1)"
  shows "ValueBytes s1 \<noteq> 0 \<and> length (FileBuffer s1) = unat (ValueBytes s1)
         \<and> (\<exists>content. host_file s = Some content
               \<and> FileBuffer s1 = take (unat (ValueBytes s1)) content)"
  using assms
  by (auto simp: LoadFile_def Let_def eprintf_def split: option.splits if_splits)

section \<open>Evaluating a run\<close>

text \<open>The equations that compute a run of the program on given inputs.\<close>

lemma hexdigits_numeral:
  "hexdigits u 0 = []"
  "hexdigits u 1 = [hexdigit u 1]"
  "hexdigits u (Suc 0) = [hexdigit u 1]"
  "hexdigits u (numeral k) = hexdigits u (numeral k div 16) @ [hexdigit u (numeral k mod 16)]"
  by (simp_all add: hexdigits.simps)

lemma store_bytes_numeral:
  "store_bytes (numeral k) Value s =
     store_bytes (pred_numeral k) (drop_bit 8 Value)
       (s\<lparr>MemoryBuffer := (MemoryBuffer s)[unat (MemoryCount s) := ucast (Value AND 0xff)],
          MemoryCount := MemoryCount s + 1\<rparr>)"
  by (simp add: numeral_eq_Suc)

lemma pack_bytes_numeral:
  "pack_bytes (numeral k) i buf (Value, Len) =
     pack_bytes (pred_numeral k) (Suc i) buf
       (Value OR push_bit (i * 8) (ucast (buf ! unat Len)), Len + 1)"
  by (simp add: numeral_eq_Suc)

lemmas run_defs = transfers_def handshake_def stage_cpu_def stage_load_def stage_send_def
  stage_download_def stage_verify_def stage_receive_def stage_dump_def
  LoadFile_def LoadMemory_def LoadMemory_loop_def LoadMemory_init_def LoadMemory_body_def
  send_loop_def send_init_def send_body_def read_command_def write_command_def send_line_def fprintf_sam9_def printf_def eprintf_def
  GetResponse_eq register_target_def silent_target_def gap_target_def quiet_run_def initial_def
  while_option_unfold verify_loop.simps
  printf_hex_def hexdigits_numeral hexdigit_def sscanf_X_def skip_0x_def xdigit_val_def isspace_def
  Let_def replicate_numeral store_bytes_numeral pack_bytes_numeral

section \<open>Facts about loops\<close>

lemma iterates_invariant:
  assumes "iterates b c s0 s" and "I s0" and "\<And>s. I s \<Longrightarrow> b s \<Longrightarrow> I (c s)"
  shows "I s"
  using assms by (induction rule: iterates.induct) auto

lemma while_option_iterates:
  assumes "while_option b c s0 = Some t"
  shows "iterates b c s0 t \<and> \<not> b t"
proof
  show "iterates b c s0 t"
    by (rule while_option_rule [OF _ assms, where P = "iterates b c s0"])
       (auto intro: iterates.intros)
  show "\<not> b t"
    by (rule while_option_stop [OF assms])
qed

lemma while_option_from_iterate:
  assumes "iterates b c s0 l" and "while_option b c s0 = Some t"
  shows "while_option b c l = Some t"
  using assms
proof (induction rule: iterates.induct)
  case start
  then show ?case .
next
  case (step s)
  from step.IH [OF step.prems] step.hyps(2) while_option_unfold [of b c s] show ?case
    by simp
qed

section \<open>Facts about LoadMemory\<close>

lemma send_line_frame [simp]:
  "ValueBytes (send_line T e c s) = ValueBytes s"
  "ResponseCount (send_line T e c s) = ResponseCount s"
  "MemoryCount (send_line T e c s) = MemoryCount s"
  "MemoryBuffer (send_line T e c s) = MemoryBuffer s"
  "FileBuffer (send_line T e c s) = FileBuffer s"
  "Success (send_line T e c s) = Success s"
  "polls (send_line T e c s) = polls s"
  "stderr (send_line T e c s) = stderr s"
  "calloc_ok (send_line T e c s) = calloc_ok s"
  by (simp_all add: send_line_def fprintf_sam9_def printf_def Let_def split: prod.split)

lemma read_command_frame [simp]:
  "ValueBytes (read_command T P l) = ValueBytes (globals l)"
  "MemoryCount (read_command T P l) = MemoryCount (globals l)"
  "MemoryBuffer (read_command T P l) = MemoryBuffer (globals l)"
  "FileBuffer (read_command T P l) = FileBuffer (globals l)"
  "Success (read_command T P l) = Success (globals l)"
  "polls (read_command T P l) = polls (globals l)"
  "stderr (read_command T P l) = stderr (globals l)"
  by (simp_all add: read_command_def)

lemma GetResponse_frame [simp]:
  "ValueBytes (snd (GetResponse e s)) = ValueBytes s"
  "MemoryCount (snd (GetResponse e s)) = MemoryCount s"
  "MemoryBuffer (snd (GetResponse e s)) = MemoryBuffer s"
  "FileBuffer (snd (GetResponse e s)) = FileBuffer s"
  "Success (snd (GetResponse e s)) = Success s"
  "stderr (snd (GetResponse e s)) = stderr s"
  "tstate (snd (GetResponse e s)) = tstate s"
  "sent (snd (GetResponse e s)) = sent s"
  "polls (snd (GetResponse e s)) = polls s + Suc (min (length (pending s)) 30)"
  "pending (snd (GetResponse e s)) = drop 30 (pending s)"
  by (simp_all add: GetResponse_eq)

lemma store_bytes_frame [simp]:
  "ValueBytes (store_bytes k v s) = ValueBytes s"
  "ResponseCount (store_bytes k v s) = ResponseCount s"
  "FileBuffer (store_bytes k v s) = FileBuffer s"
  "Success (store_bytes k v s) = Success s"
  "polls (store_bytes k v s) = polls s"
  "stderr (store_bytes k v s) = stderr s"
  "stdout (store_bytes k v s) = stdout s"
  "pending (store_bytes k v s) = pending s"
  "tstate (store_bytes k v s) = tstate s"
  "sent (store_bytes k v s) = sent s"
  "length (MemoryBuffer (store_bytes k v s)) = length (MemoryBuffer s)"
  "MemoryCount (store_bytes k v s) = MemoryCount s + of_nat k"
  by (induction k v s rule: store_bytes.induct) simp_all

lemma printf_frame [simp]:
  "ValueBytes (printf m s) = ValueBytes s"
  "ResponseCount (printf m s) = ResponseCount s"
  "MemoryCount (printf m s) = MemoryCount s"
  "MemoryBuffer (printf m s) = MemoryBuffer s"
  "FileBuffer (printf m s) = FileBuffer s"
  "Success (printf m s) = Success s"
  "polls (printf m s) = polls s"
  "stderr (printf m s) = stderr s"
  "pending (printf m s) = pending s"
  "tstate (printf m s) = tstate s"
  "sent (printf m s) = sent s"
  "stdout (printf m s) = stdout s @ [m]"
  by (simp_all add: printf_def)

lemma eprintf_frame [simp]:
  "ValueBytes (eprintf m s) = ValueBytes s"
  "ResponseCount (eprintf m s) = ResponseCount s"
  "MemoryCount (eprintf m s) = MemoryCount s"
  "MemoryBuffer (eprintf m s) = MemoryBuffer s"
  "FileBuffer (eprintf m s) = FileBuffer s"
  "Success (eprintf m s) = Success s"
  "polls (eprintf m s) = polls s"
  "stdout (eprintf m s) = stdout s"
  "pending (eprintf m s) = pending s"
  "tstate (eprintf m s) = tstate s"
  "sent (eprintf m s) = sent s"
  "stderr (eprintf m s) = stderr s @ [m]"
  by (simp_all add: eprintf_def)

text \<open>One pass through the body of the download loop, by what the target answered.\<close>

lemma LoadMemory_body_silent:
  assumes "pending (read_command T P l) = []"
  shows "LoadMemory_body T P St C l =
         l\<lparr>globals := eprintf (Failed_download_unresponsive St (MemoryCount (globals l)) C)
                          (snd (GetResponse (FlagTrace P) (read_command T P l))),
           returned := True\<rparr>"
  using assms ResponseCount_zero_iff [of "FlagTrace P" "read_command T P l"]
  by (simp add: LoadMemory_body_def split_beta Let_def)

lemma LoadMemory_body_answer:
  assumes "pending (read_command T P l) \<noteq> []"
  shows "returned (LoadMemory_body T P St C l) = returned l"
    and "Length (LoadMemory_body T P St C l) = Length l + Chunk l"
    and "Address (LoadMemory_body T P St C l) = Address l + Chunk l"
    and "Chunk (LoadMemory_body T P St C l) =
           (if C - (Length l + Chunk l) < 4 then 1 else Chunk l)"
    and "MemoryCount (globals (LoadMemory_body T P St C l)) = MemoryCount (globals l) + Chunk l"
    and "length (MemoryBuffer (globals (LoadMemory_body T P St C l)))
         = length (MemoryBuffer (globals l))"
    and "stderr (globals (LoadMemory_body T P St C l)) = stderr (globals l)"
    and "ValueBytes (globals (LoadMemory_body T P St C l)) = ValueBytes (globals l)"
    and "polls (globals (LoadMemory_body T P St C l))
         = polls (globals l) + Suc (min (length (pending (read_command T P l))) 30)"
    and "ResponseCount (globals (LoadMemory_body T P St C l)) \<noteq> 0"
  using assms ResponseCount_zero_iff [of "FlagTrace P" "read_command T P l"]
  by (simp_all add: LoadMemory_body_def split_beta Let_def)

subsection \<open>Word arithmetic of the chunk policy\<close>

lemma unat_add_le:
  fixes a b c :: bit32
  assumes "unat a + unat b \<le> unat c"
  shows "unat (a + b) = unat a + unat b"
proof -
  have "unat c < 2 ^ LENGTH(32)"
    by (rule unsigned_less)
  with assms have "unat a + unat b < 2 ^ LENGTH(32)"
    by linarith
  then show ?thesis
    by (simp only: unat_add_lem)
qed

lemma chunk_step:
  fixes L C c :: bit32
  assumes "L < C" and "c = (if 4 \<le> unat C - unat L then 4 else 1)"
  shows "unat (L + c) = unat L + unat c"
    and "L + c \<le> C"
    and "(if C - (L + c) < 4 then 1 else c) = (if 4 \<le> unat C - unat (L + c) then 4 else 1)"
proof -
  from assms(1) have lt: "unat L < unat C"
    by (simp add: word_less_nat_alt)
  with assms(2) have le: "unat L + unat c \<le> unat C"
    by (auto split: if_splits)
  show u: "unat (L + c) = unat L + unat c"
    by (rule unat_add_le [OF le])
  with le show le': "L + c \<le> C"
    by (simp add: word_le_nat_alt)
  have "unat (C - (L + c)) = unat C - unat (L + c)"
    by (rule unat_sub [OF le'])
  then have "C - (L + c) < 4 \<longleftrightarrow> unat C - unat (L + c) < 4"
    by (simp add: word_less_nat_alt)
  with assms(2) u show "(if C - (L + c) < 4 then 1 else c)
                        = (if 4 \<le> unat C - unat (L + c) then 4 else 1)"
    by (auto split: if_splits)
qed

subsection \<open>The download loop as main runs it\<close>

lemma LoadMemory_init_simps [simp]:
  "globals (LoadMemory_init St C s) = s\<lparr>MemoryBuffer := replicate (unat C) 0\<rparr>"
  "Address (LoadMemory_init St C s) = St"
  "Length (LoadMemory_init St C s) = 0"
  "Chunk (LoadMemory_init St C s) = (if ValueBytes s > 3 then 4 else 1)"
  "returned (LoadMemory_init St C s) = False"
  by (simp_all add: LoadMemory_init_def)

lemma initial_chunk: "(if (3 :: bit32) < C then 4 else 1) = (if 4 \<le> unat C then 4 else (1 :: bit32))"
proof -
  have "(3 :: bit32) < C \<longleftrightarrow> 4 \<le> unat C"
    by (auto simp: word_less_nat_alt)
  then show ?thesis
    by simp
qed

lemma LoadMemory_invariant:
  assumes "ValueBytes s = C" and "MemoryCount s = 0"
    and "iterates (\<lambda>l. \<not> returned l \<and> Length l < C) (LoadMemory_body T P St C)
           (LoadMemory_init St C s) l"
  shows "Length l \<le> C
         \<and> Chunk l = (if 4 \<le> unat C - unat (Length l) then 4 else 1)
         \<and> MemoryCount (globals l) = Length l
         \<and> length (MemoryBuffer (globals l)) = unat C
         \<and> Address l = St + Length l"
    (is "?I l")
proof (rule iterates_invariant [OF assms(3), where I = ?I])
  show "?I (LoadMemory_init St C s)"
    using assms(1,2) by (simp add: initial_chunk)
next
  fix l
  assume I: "?I l" and b: "\<not> returned l \<and> Length l < C"
  let ?l' = "LoadMemory_body T P St C l"
  show "?I ?l'"
  proof (cases "pending (read_command T P l) = []")
    case True
    with I show ?thesis
      by (simp add: LoadMemory_body_silent)
  next
    case False
    note a = LoadMemory_body_answer [OF False, of St C]
    from I b have c: "Chunk l = (if 4 \<le> unat C - unat (Length l) then 4 else 1)" and lt: "Length l < C"
      by simp_all
    note st = chunk_step [OF lt c]
    from I st show ?thesis
      by (simp add: a add.assoc)
  qed
qed

text \<open>
  Every store of the download loop is inside the buffer, and the buffer \<open>LoadMemory\<close> returns
  holds \<open>Count\<close> bytes.
\<close>

lemma LoadMemory_in_bounds:
  assumes "ValueBytes s = C" and "MemoryCount s = 0"
    and "iterates (\<lambda>l. \<not> returned l \<and> Length l < C) (LoadMemory_body T P St C)
           (LoadMemory_init St C s) l"
    and "Length l < C"
  shows "unat (MemoryCount (globals l)) + unat (Chunk l) \<le> length (MemoryBuffer (globals l))"
proof -
  note I = LoadMemory_invariant [OF assms(1-3)]
  from I have c: "Chunk l = (if 4 \<le> unat C - unat (Length l) then 4 else 1)"
    by simp
  note st = chunk_step [OF assms(4) c]
  from st(1,2) have "unat (Length l) + unat (Chunk l) \<le> unat C"
    by (simp add: word_le_nat_alt)
  with I show ?thesis
    by simp
qed

lemma LoadMemory_length:
  assumes "LoadMemory T P St C s = Some (ok, s')" and "calloc_ok s C"
    and "ValueBytes s = C" and "MemoryCount s = 0"
  shows "length (MemoryBuffer s') = unat C"
proof -
  from assms(1,2) obtain t where t: "LoadMemory_loop T P St C (LoadMemory_init St C s) = Some t"
    and s': "s' = globals t
             \<or> s' = eprintf (Failed_download_short St (MemoryCount (globals t)) C) (globals t)"
    by (auto simp: LoadMemory_def split: option.splits if_splits)
  from t have "while_option (\<lambda>l. \<not> returned l \<and> Length l < C) (LoadMemory_body T P St C)
                 (LoadMemory_init St C s) = Some t"
    by (simp add: LoadMemory_loop_def)
  from while_option_iterates [OF this]
  have "iterates (\<lambda>l. \<not> returned l \<and> Length l < C) (LoadMemory_body T P St C)
          (LoadMemory_init St C s) t"
    by blast
  from LoadMemory_invariant [OF assms(3,4) this] s' show ?thesis
    by auto
qed

subsection \<open>The download loop from any state\<close>

lemma chunk_step_any:
  fixes L C c :: bit32
  assumes "L < C" and "c = 1 \<or> (c = 4 \<and> (L = 0 \<or> unat L + 4 \<le> unat C \<or> C \<le> L))"
  shows "unat (L + c) = unat L + unat c"
    and "0 < unat c"
    and "(if C - (L + c) < 4 then 1 else c) = 1
         \<or> ((if C - (L + c) < 4 then 1 else c) = 4
             \<and> (L + c = 0 \<or> unat (L + c) + 4 \<le> unat C \<or> C \<le> L + c))"
proof -
  from assms(1) have lt: "unat L < unat C" and nle: "\<not> C \<le> L"
    by (simp_all add: word_less_nat_alt word_le_nat_alt)
  show u: "unat (L + c) = unat L + unat c"
  proof (cases "c = 1")
    case True
    with lt have "unat L + unat c \<le> unat C"
      by simp
    then show ?thesis
      by (rule unat_add_le)
  next
    case False
    with assms(2) nle have c: "c = 4" and d: "L = 0 \<or> unat L + 4 \<le> unat C"
      by auto
    from d show ?thesis
    proof
      assume "L = 0"
      then show ?thesis
        by simp
    next
      assume "unat L + 4 \<le> unat C"
      with c have "unat L + unat c \<le> unat C"
        by simp
      then show ?thesis
        by (rule unat_add_le)
    qed
  qed
  from assms(2) show "0 < unat c"
    by auto
  show "(if C - (L + c) < 4 then 1 else c) = 1
         \<or> ((if C - (L + c) < 4 then 1 else c) = 4
             \<and> (L + c = 0 \<or> unat (L + c) + 4 \<le> unat C \<or> C \<le> L + c))"
  proof (cases "C - (L + c) < 4 \<or> c = 1")
    case True
    then show ?thesis
      by auto
  next
    case False
    with assms(2) have c: "c = 4" and n: "\<not> C - (L + c) < 4"
      by auto
    have "unat (L + c) + 4 \<le> unat C \<or> C \<le> L + c"
    proof (cases "L + c \<le> C")
      case True
      then have "unat (C - (L + c)) = unat C - unat (L + c)"
        by (rule unat_sub)
      with n have "4 \<le> unat C - unat (L + c)"
        by (simp add: word_less_nat_alt)
      then have "unat (L + c) + 4 \<le> unat C"
        by linarith
      then show ?thesis
        by simp
    next
      case False
      then have "C \<le> L + c"
        using linear [of "L + c" C] by blast
      then show ?thesis
        by (rule disjI2)
    qed
    with c n show ?thesis
      by auto
  qed
qed

lemma LoadMemory_progress:
  assumes "iterates (\<lambda>l. \<not> returned l \<and> Length l < C) (LoadMemory_body T P St C)
             (LoadMemory_init St C s) l"
  shows "(Chunk l = 1 \<or> (Chunk l = 4
            \<and> (Length l = 0 \<or> unat (Length l) + 4 \<le> unat C \<or> C \<le> Length l)))
         \<and> polls (globals l) + 31 * (if returned l then 0 else unat C - unat (Length l))
             \<le> polls s + 31 * unat C
         \<and> (returned l \<longrightarrow>
               ResponseCount (globals l) = 0 \<and> Length l < C
               \<and> stderr (globals l)
                   = stderr s @ [Failed_download_unresponsive St (MemoryCount (globals l)) C])
         \<and> (\<not> returned l \<longrightarrow>
               stderr (globals l) = stderr s
               \<and> (Length l = 0 \<or> ResponseCount (globals l) \<noteq> 0))"
    (is "?I l")
proof (rule iterates_invariant [OF assms, where I = ?I])
  show "?I (LoadMemory_init St C s)"
    by simp
next
  fix l
  assume I: "?I l" and b: "\<not> returned l \<and> Length l < C"
  let ?l' = "LoadMemory_body T P St C l"
  from b have lt: "unat (Length l) < unat C"
    by (simp add: word_less_nat_alt)
  show "?I ?l'"
  proof (cases "pending (read_command T P l) = []")
    case True
    have r: "ResponseCount (snd (GetResponse (FlagTrace P) (read_command T P l))) = 0"
      using True by (simp add: ResponseCount_zero_iff)
    from lt have "31 \<le> 31 * (unat C - unat (Length l))"
      by simp
    with I b have "Suc (polls (globals l)) \<le> polls s + 31 * unat C"
      by simp
    with I b True r show ?thesis
      by (simp add: LoadMemory_body_silent)
  next
    case False
    note a = LoadMemory_body_answer [OF False, of St C]
    from I b have c: "Chunk l = 1 \<or> (Chunk l = 4
            \<and> (Length l = 0 \<or> unat (Length l) + 4 \<le> unat C \<or> C \<le> Length l))"
      and lt': "Length l < C"
      by simp_all
    note st = chunk_step_any [OF lt' c]
    have p: "polls (globals ?l') \<le> polls (globals l) + 31"
      by (simp add: a)
    from st(1,2) lt have "31 * (unat C - unat (Length l + Chunk l)) + 31
                          \<le> 31 * (unat C - unat (Length l))"
      by simp
    with p I b have q: "polls (globals ?l') + 31 * (unat C - unat (Length l + Chunk l))
                        \<le> polls s + 31 * unat C"
      by simp
    from I b st(3) q show ?thesis
      by (simp add: a)
  qed
qed

lemma LoadMemory_loop_total:
  "\<exists>t. LoadMemory_loop T P St C (LoadMemory_init St C s) = Some t"
  unfolding LoadMemory_loop_def
proof (rule measure_while_option_Some
    [where P = "iterates (\<lambda>l. \<not> returned l \<and> Length l < C) (LoadMemory_body T P St C)
                  (LoadMemory_init St C s)"
       and f = "\<lambda>l. if returned l then 0 else Suc (unat C - unat (Length l))"])
  show "iterates (\<lambda>l. \<not> returned l \<and> Length l < C) (LoadMemory_body T P St C)
          (LoadMemory_init St C s) (LoadMemory_init St C s)"
    by (rule iterates.start)
next
  fix l
  assume it: "iterates (\<lambda>l. \<not> returned l \<and> Length l < C) (LoadMemory_body T P St C)
                (LoadMemory_init St C s) l"
    and b: "\<not> returned l \<and> Length l < C"
  let ?l' = "LoadMemory_body T P St C l"
  from b have lt: "unat (Length l) < unat C" and lt': "Length l < C"
    by (simp_all add: word_less_nat_alt)
  have "(if returned ?l' then 0 else Suc (unat C - unat (Length ?l')))
        < (if returned l then 0 else Suc (unat C - unat (Length l)))"
  proof (cases "pending (read_command T P l) = []")
    case True
    with b show ?thesis
      by (simp add: LoadMemory_body_silent)
  next
    case False
    note a = LoadMemory_body_answer [OF False, of St C]
    from LoadMemory_progress [OF it] have c: "Chunk l = 1 \<or> (Chunk l = 4
            \<and> (Length l = 0 \<or> unat (Length l) + 4 \<le> unat C \<or> C \<le> Length l))"
      by simp
    note st = chunk_step_any [OF lt' c]
    from st(1,2) lt b show ?thesis
      by (simp add: a)
  qed
  with it b show "iterates (\<lambda>l. \<not> returned l \<and> Length l < C) (LoadMemory_body T P St C)
           (LoadMemory_init St C s) ?l'
        \<and> (if returned ?l' then 0 else Suc (unat C - unat (Length ?l')))
          < (if returned l then 0 else Suc (unat C - unat (Length l)))"
    by (simp add: iterates.step)
qed

subsection \<open>The send loop\<close>

lemma pack_bytes_Length: "snd (pack_bytes k i buf (v, L)) = L + of_nat k"
  by (induction k arbitrary: i v L) (simp_all add: add.assoc)

lemma write_command_frame [simp]:
  "ValueBytes (write_command T P v l) = ValueBytes (globals l)"
  "MemoryCount (write_command T P v l) = MemoryCount (globals l)"
  "MemoryBuffer (write_command T P v l) = MemoryBuffer (globals l)"
  "FileBuffer (write_command T P v l) = FileBuffer (globals l)"
  "Success (write_command T P v l) = Success (globals l)"
  "polls (write_command T P v l) = polls (globals l)"
  "stderr (write_command T P v l) = stderr (globals l)"
  by (simp_all add: write_command_def)

lemma send_body_simps:
  "Length (send_body T P l) = Length l + Chunk l"
  "Address (send_body T P l) = Address l + Chunk l"
  "Chunk (send_body T P l) =
     (if ValueBytes (globals l) - (Length l + Chunk l) < 4 then 1 else Chunk l)"
  "ValueBytes (globals (send_body T P l)) = ValueBytes (globals l)"
  "FileBuffer (globals (send_body T P l)) = FileBuffer (globals l)"
  "MemoryCount (globals (send_body T P l)) = MemoryCount (globals l)"
  "Success (globals (send_body T P l)) = Success (globals l)"
  "stderr (globals (send_body T P l)) = stderr (globals l)"
  by (simp_all add: send_body_def split_beta Let_def pack_bytes_Length)

lemma send_init_simps [simp]:
  "globals (send_init P s) = s"
  "Address (send_init P s) = ValueAddrStart P"
  "Length (send_init P s) = 0"
  "Chunk (send_init P s) = (if ValueBytes s > 3 then 4 else 1)"
  by (simp_all add: send_init_def)

lemma send_invariant:
  assumes "iterates (\<lambda>l. Length l < ValueBytes (globals l)) (send_body T P) (send_init P s) l"
  shows "ValueBytes (globals l) = ValueBytes s
         \<and> FileBuffer (globals l) = FileBuffer s
         \<and> Length l \<le> ValueBytes s
         \<and> Chunk l = (if 4 \<le> unat (ValueBytes s) - unat (Length l) then 4 else 1)
         \<and> Address l = ValueAddrStart P + Length l"
    (is "?I l")
proof (rule iterates_invariant [OF assms, where I = ?I])
  show "?I (send_init P s)"
    by (simp add: initial_chunk)
next
  fix l
  assume I: "?I l" and b: "Length l < ValueBytes (globals l)"
  from I b have c: "Chunk l = (if 4 \<le> unat (ValueBytes s) - unat (Length l) then 4 else 1)"
    and lt: "Length l < ValueBytes s"
    by simp_all
  note st = chunk_step [OF lt c]
  from I st show "?I (send_body T P l)"
    by (simp add: send_body_simps add.assoc)
qed

text \<open>Every byte the send loop packs lies below \<open>ValueBytes\<close> in the file buffer.\<close>

lemma send_in_bounds:
  assumes "iterates (\<lambda>l. Length l < ValueBytes (globals l)) (send_body T P) (send_init P s) l"
    and "Length l < ValueBytes s"
  shows "unat (Length l) + unat (Chunk l) \<le> unat (ValueBytes s)"
proof -
  note I = send_invariant [OF assms(1)]
  from I have c: "Chunk l = (if 4 \<le> unat (ValueBytes s) - unat (Length l) then 4 else 1)"
    by simp
  note st = chunk_step [OF assms(2) c]
  from st(1,2) show ?thesis
    by (simp add: word_le_nat_alt)
qed

lemma send_loop_total: "\<exists>t. send_loop T P (send_init P s) = Some t"
  unfolding send_loop_def
proof (rule measure_while_option_Some
    [where P = "iterates (\<lambda>l. Length l < ValueBytes (globals l)) (send_body T P) (send_init P s)"
       and f = "\<lambda>l. unat (ValueBytes s) - unat (Length l)"])
  show "iterates (\<lambda>l. Length l < ValueBytes (globals l)) (send_body T P) (send_init P s)
          (send_init P s)"
    by (rule iterates.start)
next
  fix l
  assume it: "iterates (\<lambda>l. Length l < ValueBytes (globals l)) (send_body T P) (send_init P s) l"
    and b: "Length l < ValueBytes (globals l)"
  note I = send_invariant [OF it]
  from I b have c: "Chunk l = (if 4 \<le> unat (ValueBytes s) - unat (Length l) then 4 else 1)"
    and lt: "Length l < ValueBytes s"
    by simp_all
  note st = chunk_step [OF lt c]
  from lt have "unat (Length l) < unat (ValueBytes s)"
    by (simp add: word_less_nat_alt)
  with st(1) c have "unat (ValueBytes s) - unat (Length (send_body T P l))
                     < unat (ValueBytes s) - unat (Length l)"
    by (auto simp: send_body_simps split: if_splits)
  with it b show "iterates (\<lambda>l. Length l < ValueBytes (globals l)) (send_body T P) (send_init P s)
           (send_body T P l)
        \<and> unat (ValueBytes s) - unat (Length (send_body T P l))
          < unat (ValueBytes s) - unat (Length l)"
    by (simp add: iterates.step)
qed

section \<open>Facts about the sections of main\<close>

text \<open>
  Whatever the target does, \<open>LoadMemory\<close> returns, within 31 polls of the serial port for
  every byte requested, and the state it returns tells which way it ended.
\<close>

lemma LoadMemory_returns:
  "\<exists>ok s'. LoadMemory T P St C s = Some (ok, s')
     \<and> polls s' \<le> polls s + 31 * unat C
     \<and> (ok \<longrightarrow> MemoryCount s' = C \<and> stderr s' = stderr s)
     \<and> (calloc_ok s C \<and> C \<noteq> 0 \<and> ResponseCount s' = 0 \<longrightarrow>
          \<not> ok \<and> stderr s' = stderr s @ [Failed_download_unresponsive St (MemoryCount s') C])
     \<and> (calloc_ok s C \<and> (C = 0 \<or> ResponseCount s' \<noteq> 0) \<and> MemoryCount s' \<noteq> C \<longrightarrow>
          \<not> ok \<and> stderr s' = stderr s @ [Failed_download_short St (MemoryCount s') C])
     \<and> (\<not> calloc_ok s C \<longrightarrow>
          \<not> ok \<and> stderr s' = stderr s @ [Failed_download_calloc St C])"
proof (cases "calloc_ok s C")
  case False
  then show ?thesis
    by (auto simp: LoadMemory_def)
next
  case True
  obtain t where t: "LoadMemory_loop T P St C (LoadMemory_init St C s) = Some t"
    using LoadMemory_loop_total by blast
  then have "while_option (\<lambda>l. \<not> returned l \<and> Length l < C) (LoadMemory_body T P St C)
               (LoadMemory_init St C s) = Some t"
    by (simp add: LoadMemory_loop_def)
  from while_option_iterates [OF this]
  have it: "iterates (\<lambda>l. \<not> returned l \<and> Length l < C) (LoadMemory_body T P St C)
              (LoadMemory_init St C s) t"
    and stop: "\<not> (\<not> returned t \<and> Length t < C)"
    by blast+
  note I = LoadMemory_progress [OF it]
  show ?thesis
  proof (cases "returned t")
    case r: True
    with I have "C \<noteq> 0"
      by auto
    with True t r I show ?thesis
      by (auto simp: LoadMemory_def)
  next
    case r: False
    with stop have le: "C \<le> Length t"
      by simp
    then have "C \<noteq> 0 \<longrightarrow> Length t \<noteq> 0"
      by auto
    with r I have rc: "C = 0 \<or> ResponseCount (globals t) \<noteq> 0"
      by auto
    from r I have p: "polls (globals t) \<le> polls s + 31 * unat C"
      by simp
    from True t r I rc p show ?thesis
      by (auto simp: LoadMemory_def)
  qed
qed

text \<open>Which sections change \<open>Success\<close>, and when.\<close>

lemma handshake_Success: "Success (handshake T P s) = Success s"
  by (simp add: handshake_def Let_def)

lemma stage_cpu_Success:
  "Success (stage_cpu T P s) \<longleftrightarrow>
     Success s \<and> (FlagCpu P \<longrightarrow> pending (send_line T True (bytes ''wfffff240,4#'') s) \<noteq> [])"
  using ResponseCount_zero_iff [of True "send_line T True (bytes ''wfffff240,4#'') s"]
  by (simp add: stage_cpu_def Let_def split_beta)

lemma LoadFile_Success: "Success (snd (LoadFile s)) = Success s"
  by (simp add: LoadFile_def Let_def split: option.split)

lemma stage_load_Success:
  "Success (stage_load P s) \<longleftrightarrow>
     Success s \<and> (FlagSend P \<or> FlagVerify P \<longrightarrow> ParamFileName P \<and> fst (LoadFile s))"
  using LoadFile_Success [of s]
  by (auto simp: stage_load_def split_beta)

lemma send_loop_Success:
  assumes "send_loop T P l = Some l'"
  shows "Success (globals l') = Success (globals l)"
  using assms unfolding send_loop_def
  by (rule while_option_rule [where P = "\<lambda>x. Success (globals x) = Success (globals l)", rotated])
     (simp_all add: send_body_simps)

lemma stage_send_Success:
  "\<exists>s'. stage_send T P s = Some s' \<and> Success s' = Success s"
proof (cases "Success s \<and> FlagSend P")
  case True
  obtain l where l: "send_loop T P (send_init P s) = Some l"
    using send_loop_total by blast
  from send_loop_Success [OF l] True l show ?thesis
    by (simp add: stage_send_def)
next
  case False
  then show ?thesis
    by (auto simp: stage_send_def)
qed

lemma LoadMemory_body_Success:
  "Success (globals (LoadMemory_body T P St C l)) = Success (globals l)"
  by (simp add: LoadMemory_body_def split_beta Let_def)

lemma LoadMemory_Success:
  assumes "LoadMemory T P St C s = Some (ok, s')"
  shows "Success s' = Success s"
proof (cases "calloc_ok s C")
  case False
  with assms show ?thesis
    by (auto simp: LoadMemory_def)
next
  case True
  with assms obtain t where t: "LoadMemory_loop T P St C (LoadMemory_init St C s) = Some t"
    and s': "s' = globals t
             \<or> s' = eprintf (Failed_download_short St (MemoryCount (globals t)) C) (globals t)"
    by (auto simp: LoadMemory_def split: option.splits if_splits)
  from t have "Success (globals t) = Success s"
    unfolding LoadMemory_loop_def
    by (rule while_option_rule [where P = "\<lambda>x. Success (globals x) = Success s", rotated])
       (simp_all add: LoadMemory_body_Success)
  with s' show ?thesis
    by auto
qed

lemma stage_download_Success:
  "\<exists>s'. stage_download T P s = Some s'
     \<and> (Success s' \<longleftrightarrow>
          Success s \<and> (FlagVerify P \<or> FlagReceive P \<or> FlagDump P \<longrightarrow>
             ValueBytes s \<noteq> 0
             \<and> (\<exists>s1. LoadMemory T P (ValueAddrStart P) (ValueBytes s) s = Some (True, s1))))"
proof -
  obtain ok s1 where r: "LoadMemory T P (ValueAddrStart P) (ValueBytes s) s = Some (ok, s1)"
    using LoadMemory_returns [of T P "ValueAddrStart P" "ValueBytes s" s] by blast
  from LoadMemory_Success [OF r] r show ?thesis
    by (auto simp: stage_download_def)
qed


lemma stage_verify_eq:
  assumes "Success s" and "FlagVerify P" and "ValueBytes s \<noteq> 0"
    and "length (FileBuffer s) = unat (ValueBytes s)"
    and "length (MemoryBuffer s) = unat (ValueBytes s)"
  shows "stage_verify P s =
        (case first_mismatch (FileBuffer s) (MemoryBuffer s) of
           None \<Rightarrow> printf (Verified (ValueAddrStart P) (ValueBytes s)) s
         | Some k \<Rightarrow>
             (eprintf (Verify_error (ValueAddrStart P) (ValueBytes s) (of_nat k)) s)
               \<lparr>Success := False\<rparr>)"
proof -
  have loop: "verify_loop P 0 s =
     (case first_mismatch (FileBuffer s) (MemoryBuffer s) of
        None \<Rightarrow> s
      | Some k \<Rightarrow>
          (eprintf (Verify_error (ValueAddrStart P) (ValueBytes s) (of_nat k)) s)
            \<lparr>Success := False\<rparr>)"
    using verify_loop_eq [OF assms(1) _ assms(4,5), of 0 P] by (simp split: option.split)
  from assms(1-3) show ?thesis
    by (simp add: stage_verify_def loop Let_def printf_def eprintf_def split: option.split)
qed

lemma stage_verify_Success:
  assumes "length (FileBuffer s) = unat (ValueBytes s)"
    and "length (MemoryBuffer s) = unat (ValueBytes s)"
  shows "Success (stage_verify P s) \<longleftrightarrow>
           Success s \<and> (FlagVerify P \<longrightarrow> ValueBytes s \<noteq> 0 \<and> FileBuffer s = MemoryBuffer s)"
proof (cases "Success s \<and> FlagVerify P \<and> ValueBytes s \<noteq> 0")
  case True
  then have a: "Success s" "FlagVerify P" "ValueBytes s \<noteq> 0"
    by simp_all
  have none: "first_mismatch (FileBuffer s) (MemoryBuffer s) = None
              \<longleftrightarrow> FileBuffer s = MemoryBuffer s"
    by (rule first_mismatch_None) (simp add: assms)
  from a none show ?thesis
    by (cases "first_mismatch (FileBuffer s) (MemoryBuffer s)")
       (simp_all add: stage_verify_eq [OF a assms] printf_def eprintf_def)
next
  case False
  then show ?thesis
    by (auto simp: stage_verify_def)
qed

lemma stage_receive_Success:
  "Success (stage_receive P s) \<longleftrightarrow>
     Success s \<and> (FlagReceive P \<and> MemoryCount s \<noteq> 0 \<longrightarrow> fopen_wb_ok s \<and> fwrite_ok s)"
  by (auto simp: stage_receive_def printf_def eprintf_def)

lemma terminal_cycle_frame:
  "Success (snd (terminal_cycle T c (Key, s))) = Success s"
  "prefix (sent s) (sent (snd (terminal_cycle T c (Key, s))))"
  "prefix (stdout s) (stdout (snd (terminal_cycle T c (Key, s))))"
  by (auto simp: terminal_cycle_def fprintf_sam9_def printf_def drain_eq Let_def
        split: prod.split option.split)

lemma terminal_loop_frame:
  "Success (snd (snd (terminal_loop T console (Key, s)))) = Success s
   \<and> prefix (sent s) (sent (snd (snd (terminal_loop T console (Key, s)))))
   \<and> prefix (stdout s) (stdout (snd (snd (terminal_loop T console (Key, s)))))"
proof (induction console arbitrary: Key s)
  case Nil
  show ?case
    by simp
next
  case (Cons c console)
  obtain Key' s' where c: "terminal_cycle T c (Key, s) = (Key', s')"
    by (cases "terminal_cycle T c (Key, s)")
  from terminal_cycle_frame [where T = T and c = c and Key = Key and s = s]
  have f: "Success s' = Success s" "prefix (sent s) (sent s')" "prefix (stdout s) (stdout s')"
    by (simp_all add: c)
  from Cons [of Key' s'] f show ?case
    by (auto simp: c intro: prefix_order.trans)
qed


lemma TerminalEmulator_frame:
  "Success (snd (TerminalEmulator T P console s)) = Success s
   \<and> prefix (stdout s @ [Terminal_banner (ParamAddrGo P)])
        (stdout (snd (TerminalEmulator T P console s)))
   \<and> (ParamAddrGo P \<longrightarrow>
        prefix (sent s @ bytes ''#\<newline>'' @ bytes ''G'' @ printf_hex True 1 (ValueAddrGo P))
          (sent (snd (TerminalEmulator T P console s))))"
proof -
  let ?s1 = "printf (Terminal_banner (ParamAddrGo P)) s"
  let ?a = "snd (GetResponse True (fprintf_sam9 T (bytes ''#\<newline>'') ?s1))"
  let ?b = "snd (GetResponse True
                   (fprintf_sam9 T (bytes ''G'' @ printf_hex True 1 (ValueAddrGo P)) ?a))"
  define s2 where "s2 = (if ParamAddrGo P
             then printf (Text (bytes ''G'' @ printf_hex True 1 (ValueAddrGo P))) ?b else ?s1)"
  define r where "r = terminal_loop T console (0, s2)"
  define s3 where "s3 = snd (snd r)"
  have s2: "Success s2 = Success s"
    "prefix (stdout s @ [Terminal_banner (ParamAddrGo P)]) (stdout s2)"
    "ParamAddrGo P \<longrightarrow>
       sent s2 = sent s @ bytes ''#\<newline>'' @ bytes ''G'' @ printf_hex True 1 (ValueAddrGo P)"
    unfolding s2_def by (simp_all add: fprintf_sam9_def printf_def GetResponse_eq split_beta)
  from terminal_loop_frame [of T console 0 s2]
  have l: "Success s3 = Success s2" "prefix (sent s2) (sent s3)" "prefix (stdout s2) (stdout s3)"
    by (simp_all add: s3_def r_def)
  have e: "snd (TerminalEmulator T P console s)
           = (if fst r then printf Terminal_exit s3 else s3)"
    by (simp add: TerminalEmulator_def Let_def split_beta s3_def r_def s2_def)
  have t: "Success (snd (TerminalEmulator T P console s)) = Success s3"
    "sent (snd (TerminalEmulator T P console s)) = sent s3"
    "prefix (stdout s3) (stdout (snd (TerminalEmulator T P console s)))"
    unfolding e by simp_all
  from t(1) l(1) s2(1) have "Success (snd (TerminalEmulator T P console s)) = Success s"
    by simp
  moreover from s2(2) l(3) t(3)
  have "prefix (stdout s @ [Terminal_banner (ParamAddrGo P)])
          (stdout (snd (TerminalEmulator T P console s)))"
    by (blast intro: prefix_order.trans)
  moreover from l(2) s2(3)
  have "ParamAddrGo P \<longrightarrow>
        prefix (sent s @ bytes ''#\<newline>'' @ bytes ''G'' @ printf_hex True 1 (ValueAddrGo P))
          (sent (snd (TerminalEmulator T P console s)))"
    unfolding t(2) by auto
  ultimately show ?thesis
    by blast
qed

lemma main_interactive:
  assumes "transfers T P s = Some s1" and "FlagInteractive P"
  shows "\<exists>code s2. main T P console s = Some (code, s2)
           \<and> Success s2 = Success s1
           \<and> prefix (stdout s1 @ [Terminal_banner (ParamAddrGo P)]) (stdout s2)
           \<and> (ParamAddrGo P \<longrightarrow>
                prefix (sent s1 @ bytes ''#\<newline>'' @ bytes ''G''
                          @ printf_hex True 1 (ValueAddrGo P)) (sent s2))"
proof -
  note f = TerminalEmulator_frame [of T P console s1]
  obtain fin s2 where t: "TerminalEmulator T P console s1 = (fin, s2)"
    by (cases "TerminalEmulator T P console s1")
  from f have f': "Success s2 = Success s1"
    "prefix (stdout s1 @ [Terminal_banner (ParamAddrGo P)]) (stdout s2)"
    "ParamAddrGo P \<longrightarrow>
        prefix (sent s1 @ bytes ''#\<newline>'' @ bytes ''G'' @ printf_hex True 1 (ValueAddrGo P))
          (sent s2)"
    by (simp_all add: t)
  show ?thesis
  proof (cases fin)
    case True
    with assms t have "main T P console s =
        Some (Some (if Success s2 then 0 else 1),
              printf (if Success s2 then Exit_success else Exit_failure)
                (printf (Text (bytes ''\<newline>'')) s2))"
      by (simp add: main_def)
    moreover from f'(2)
    have "prefix (stdout s1 @ [Terminal_banner (ParamAddrGo P)])
            (stdout (printf (if Success s2 then Exit_success else Exit_failure)
                       (printf (Text (bytes ''\<newline>'')) s2)))"
      by (simp add: prefix_prefix)
    ultimately show ?thesis
      using f'(1,3) by simp
  next
    case False
    with assms t have "main T P console s = Some (None, s2)"
      by (simp add: main_def)
    with f' show ?thesis
      by simp
  qed
qed

lemma main_batch_failed:
  assumes "transfers T P s = Some s1" and "\<not> FlagInteractive P" and "\<not> Success s1"
  shows "main T P console s =
           Some (Some 1, printf Exit_failure (printf (Text (bytes ''\<newline>'')) s1))"
  using assms by (simp add: main_def printf_def)

section \<open>Facts about an upload followed by a download\<close>

subsection \<open>Hexadecimal text written and read back\<close>

lemma xdigit_val_hexdigit: "d < 16 \<Longrightarrow> xdigit_val (hexdigit True d) = Some d"
  by (simp add: xdigit_val_def word_le_nat_alt unat_hexdigit)

lemma xdigit_val_zero: "xdigit_val 48 = Some 0"
  by (simp add: xdigit_val_def)

lemma strtoul16_hexdigits:
  "strtoul16 acc (hexdigits True n @ rest) =
     strtoul16 (acc * 16 ^ length (hexdigits True n) + n) rest"
proof (induction True n arbitrary: rest rule: hexdigits.induct)
  case (1 n)
  show ?case
  proof (cases "n = 0")
    case True
    then show ?thesis
      by (simp add: hexdigits.simps)
  next
    case False
    have d: "xdigit_val (hexdigit True (n mod 16)) = Some (n mod 16)"
      by (rule xdigit_val_hexdigit) simp
    from False have h: "hexdigits True n = hexdigits True (n div 16) @ [hexdigit True (n mod 16)]"
      by (subst hexdigits.simps) simp
    show ?thesis
      unfolding h using "1.hyps" [OF False, of "hexdigit True (n mod 16) # rest"]
      by (simp add: d algebra_simps)
  qed
qed

lemma strtoul16_zeros: "strtoul16 0 (replicate k 48 @ rest) = strtoul16 0 rest"
  by (induction k) (simp_all add: xdigit_val_zero)

lemma strtoul16_printf_hex:
  "xdigit_val c = None \<Longrightarrow> strtoul16 0 (printf_hex True p v @ c # r) = unat v"
  by (simp add: printf_hex_def Let_def strtoul16_zeros strtoul16_hexdigits)

lemma hexdigits_xdigit: "c \<in> set (hexdigits True n) \<Longrightarrow> xdigit_val c \<noteq> None"
proof (induction True n rule: hexdigits.induct)
  case (1 n)
  show ?case
  proof (cases "n = 0")
    case True
    with "1.prems" show ?thesis
      by (simp add: hexdigits.simps)
  next
    case False
    with "1.prems" have "c \<in> set (hexdigits True (n div 16)) \<or> c = hexdigit True (n mod 16)"
      by (subst (asm) hexdigits.simps) auto
    with False "1.hyps" show ?thesis
      using xdigit_val_hexdigit [of "n mod 16"] by auto
  qed
qed

lemma printf_hex_xdigit: "c \<in> set (printf_hex True p v) \<Longrightarrow> xdigit_val c \<noteq> None"
  by (auto simp: printf_hex_def Let_def xdigit_val_zero dest: hexdigits_xdigit)


lemma xdigit_not:
  "xdigit_val c \<noteq> None \<Longrightarrow>
     \<not> isspace c \<and> c \<noteq> 44 \<and> c \<noteq> 45 \<and> c \<noteq> 43 \<and> c \<noteq> 120 \<and> c \<noteq> 88 \<and> c \<noteq> 0 \<and> c \<noteq> 10"
  by (auto simp: xdigit_val_def isspace_def word_le_nat_alt split: if_splits)

lemma xdigit_val_separators [simp]:
  "xdigit_val 44 = None" "xdigit_val 35 = None" "xdigit_val 10 = None"
  by (simp_all add: xdigit_val_def)

lemma dropWhile_comma:
  "dropWhile (\<lambda>b. b \<noteq> 44) (printf_hex True p v @ 44 # r) = 44 # r"
proof -
  have "\<forall>c \<in> set (printf_hex True p v). c \<noteq> 44"
    using printf_hex_xdigit xdigit_not by blast
  then show ?thesis
    by (simp add: dropWhile_append3)
qed

lemma register_target_write:
  assumes "c = 87 \<or> c = 79"
  shows "register_target regs (c # printf_hex True p A @ 44 # printf_hex True q V @ 35 # r)
         = (regs(A := V), bytes ''\<newline>>'')"
  using assms
  by (auto simp: register_target_def Let_def strtoul16_printf_hex dropWhile_comma)

lemma register_target_read:
  assumes "c = 119 \<or> c = 111"
  shows "register_target regs (c # printf_hex True p A @ 44 # r)
         = (regs, bytes ''\<newline>0x'' @ printf_hex True 8 (regs A) @ bytes ''\<newline>>'')"
  using assms
  by (auto simp: register_target_def Let_def strtoul16_printf_hex)


lemma length_printf_hex8: "length (printf_hex u 8 v) = 8"
proof -
  have "unat v < 2 ^ LENGTH(32)"
    by (rule unsigned_less)
  then have "unat v < 16 ^ 8"
    by simp
  from length_hexdigits_le [OF this] show ?thesis
    by (simp add: length_printf_hex)
qed

lemma list3: "3 \<le> length xs \<Longrightarrow> \<exists>a b c r. xs = a # b # c # r"
  apply (cases xs)
   apply simp
  subgoal for a ys
    apply (cases ys)
     apply simp
    subgoal for b zs
      apply (cases zs)
       apply simp_all
      done
    done
  done

lemma scan_done: "3 \<le> n \<Longrightarrow> scan n xs w = w"
  by (induction xs arbitrary: w) simp_all

lemma sscanf_X_printf_hex: "sscanf_X (printf_hex True 8 v @ bytes ''\<newline>>'') = Some v"
proof -
  let ?s = "printf_hex True 8 v @ bytes ''\<newline>>''"
  have "3 \<le> length (printf_hex True 8 v)"
    by (simp add: length_printf_hex8)
  from list3 [OF this] obtain a b c r where h: "printf_hex True 8 v = a # b # c # r"
    by blast
  have x: "xdigit_val a \<noteq> None" "xdigit_val b \<noteq> None"
    using printf_hex_xdigit [of _ 8 v] by (simp_all add: h)
  note na = xdigit_not [OF x(1)] and nb = xdigit_not [OF x(2)]
  have n: "strtoul16 0 ?s = unat v"
    using strtoul16_printf_hex [of 10 8 v "[62]"] by simp
  have "unat v < 2 ^ LENGTH(32)"
    by (rule unsigned_less)
  then have lt: "\<not> 2 ^ 64 \<le> unat v"
    by simp
  have s1: "dropWhile isspace ?s = ?s"
    using na by (simp add: h)
  have hd: "?s \<noteq> []" "hd ?s = a"
    by (simp_all add: h)
  have sk: "skip_0x ?s = ?s"
    using nb by (simp add: h skip_0x_def)
  have c: "(case ?s of [] \<Rightarrow> None
            | c # r \<Rightarrow> if xdigit_val c = None then None
                else Some (if 2 ^ 64 \<le> strtoul16 0 ?s then 0xFFFFFFFF
                           else of_nat (strtoul16 0 ?s))) =
           Some v"
    unfolding n using x(1) lt by (simp add: h)
  from na have neg: "(?s \<noteq> [] \<and> hd ?s = of_char CHR ''-'') = False"
    "(?s \<noteq> [] \<and> (hd ?s = of_char CHR ''-'' \<or> hd ?s = of_char CHR ''+'')) = False"
    unfolding hd by simp_all
  show ?thesis
    unfolding sscanf_X_def Let_def s1
    by (simp only: neg if_False sk c)
qed

lemma scan_reply:
  "scan 0 (bytes ''\<newline>0x'' @ printf_hex True 8 v @ bytes ''\<newline>>'') 0 = v"
proof -
  obtain a r where h: "printf_hex True 8 v = a # r"
    using length_printf_hex8 [of True v] by (cases "printf_hex True 8 v") simp_all
  have "\<forall>c \<in> set (printf_hex True 8 v @ bytes ''\<newline>>''). c \<noteq> 0"
    using printf_hex_nonzero [of _ True 8 v] by auto
  then have t: "takeWhile (\<lambda>b. b \<noteq> 0) (printf_hex True 8 v @ bytes ''\<newline>>'')
                = printf_hex True 8 v @ bytes ''\<newline>>''"
    by (simp only: takeWhile_eq_all_conv)
  have "scan 0 (bytes ''\<newline>0x'' @ printf_hex True 8 v @ bytes ''\<newline>>'') 0 =
        scan 2 (printf_hex True 8 v @ bytes ''\<newline>>'') 0"
    by simp
  also have "\<dots> = scan 3 (r @ bytes ''\<newline>>'')
                     (case sscanf_X (takeWhile (\<lambda>b. b \<noteq> 0) (printf_hex True 8 v @ bytes ''\<newline>>'')) of
                        Some v \<Rightarrow> v | None \<Rightarrow> 0)"
    by (simp add: h)
  also have "\<dots> = v"
    unfolding t sscanf_X_printf_hex by (simp add: scan_done)
  finally show ?thesis .
qed


lemma and_ff: "(w :: bit32) AND 0xff = take_bit 8 w"
proof -
  have "(0xff :: bit32) = mask 8"
    by (simp add: mask_eq_exp_minus_1)
  then show ?thesis
    by (simp only: take_bit_eq_mask)
qed

lemma unpack_pack4:
  fixes b0 b1 b2 b3 :: byte
  defines "V \<equiv> (ucast b0 OR push_bit 8 (ucast b1) OR push_bit 16 (ucast b2)
                    OR push_bit 24 (ucast b3) :: bit32)"
  shows "ucast (V AND 0xff) = b0"
    and "ucast (drop_bit 8 V AND 0xff) = b1"
    and "ucast (drop_bit 16 V AND 0xff) = b2"
    and "ucast (drop_bit 24 V AND 0xff) = b3"
  unfolding V_def and_ff
  by (rule bit_word_eqI; auto simp: bit_simps dest: bit_imp_le_length)+

lemma unpack_pack1: "ucast ((ucast (b :: byte) :: bit32) AND 0xff) = b"
  unfolding and_ff
  by (rule bit_word_eqI; auto simp: bit_simps dest: bit_imp_le_length)

lemma store_bytes_buffer:
  assumes "unat (MemoryCount s) + k \<le> length (MemoryBuffer s)"
    and "length (MemoryBuffer s) < 2 ^ 32"
  shows "MemoryBuffer (store_bytes k v s) =
           take (unat (MemoryCount s)) (MemoryBuffer s)
           @ map (\<lambda>i. ucast (drop_bit (8 * i) v AND 0xff)) [0..<k]
           @ drop (unat (MemoryCount s) + k) (MemoryBuffer s)"
  using assms
proof (induction k arbitrary: v s)
  case 0
  then show ?case
    by simp
next
  case (Suc k)
  let ?m = "unat (MemoryCount s)"
  let ?s' = "s\<lparr>MemoryBuffer := (MemoryBuffer s)[?m := ucast (v AND 0xff)],
               MemoryCount := MemoryCount s + 1\<rparr>"
  from Suc.prems have "?m + unat (1 :: bit32) \<le> unat (of_nat (length (MemoryBuffer s)) :: bit32)"
    by (simp add: unat_of_nat32)
  then have m: "unat (MemoryCount s + 1) = Suc ?m"
    using unat_add_le [of "MemoryCount s" 1] by simp
  from Suc.prems m have p: "unat (MemoryCount ?s') + k \<le> length (MemoryBuffer ?s')"
    "length (MemoryBuffer ?s') < 2 ^ 32"
    by simp_all
  from Suc.prems have lt: "?m < length (MemoryBuffer s)"
    by simp
  have u: "[0..<Suc k] = 0 # map Suc [0..<k]"
    by (simp add: upt_conv_Cons map_Suc_upt del: upt_Suc)
  have t: "take (Suc ?m) ((MemoryBuffer s)[?m := x]) = take ?m (MemoryBuffer s) @ [x]" for x
    using lt by (simp add: take_Suc_conv_app_nth)
  have e: "8 * x + 8 = 8 + 8 * x" for x :: nat
    by simp
  show ?case
    using Suc.IH [OF p, of "drop_bit 8 v"]
    by (simp add: m t u e comp_def del: upt_Suc)
qed


lemma unat_offset:
  assumes "p + j < 2 ^ 32"
  shows "unat (of_nat p + of_nat j :: bit32) = p + j"
proof -
  have "(of_nat p + of_nat j :: bit32) = of_nat (p + j)"
    by simp
  with assms show ?thesis
    by (simp only: unat_of_nat32)
qed

lemma take4_drop:
  assumes "p + 4 \<le> length bs"
  shows "take 4 (drop p bs) = [bs ! p, bs ! (p + 1), bs ! (p + 2), bs ! (p + 3)]"
proof -
  have e: "p + 1 = Suc p" "p + 2 = Suc (Suc p)" "p + 3 = Suc (Suc (Suc p))"
    by simp_all
  have "drop p bs = bs ! p # drop (Suc p) bs"
    by (rule Cons_nth_drop_Suc [symmetric]) (use assms in simp)
  also have "drop (Suc p) bs = bs ! Suc p # drop (Suc (Suc p)) bs"
    by (rule Cons_nth_drop_Suc [symmetric]) (use assms in simp)
  also have "drop (Suc (Suc p)) bs = bs ! Suc (Suc p) # drop (Suc (Suc (Suc p))) bs"
    by (rule Cons_nth_drop_Suc [symmetric]) (use assms in simp)
  also have "drop (Suc (Suc (Suc p))) bs
             = bs ! Suc (Suc (Suc p)) # drop (Suc (Suc (Suc (Suc p)))) bs"
    by (rule Cons_nth_drop_Suc [symmetric]) (use assms in simp)
  finally show ?thesis
    unfolding e by simp
qed

lemma pack_bytes4:
  assumes "p + 4 \<le> length bs" and "length bs < 2 ^ 32"
  shows "fst (pack_bytes 4 0 bs (0, of_nat p)) =
           ucast (bs ! p) OR push_bit 8 (ucast (bs ! (p + 1)))
           OR push_bit 16 (ucast (bs ! (p + 2))) OR push_bit 24 (ucast (bs ! (p + 3)))"
proof -
  from assms have "p + 0 < 2 ^ 32" "p + 1 < 2 ^ 32" "p + 2 < 2 ^ 32" "p + 3 < 2 ^ 32"
    by simp_all
  from this [THEN unat_offset]
  have u: "unat (of_nat p :: bit32) = p" "unat (of_nat p + 1 :: bit32) = p + 1"
    "unat (of_nat p + 2 :: bit32) = p + 2" "unat (of_nat p + 3 :: bit32) = p + 3"
    by simp_all
  show ?thesis
    by (simp add: pack_bytes_numeral u add.assoc or.assoc)
qed

lemma pack_bytes1:
  assumes "p < length bs" and "length bs < 2 ^ 32"
  shows "fst (pack_bytes 1 0 bs (0, of_nat p)) = ucast (bs ! p)"
proof -
  from assms have "unat (of_nat p :: bit32) = p"
    by (simp add: unat_of_nat32)
  then show ?thesis
    by simp
qed

lemma unpack_pack:
  assumes "c = 1 \<or> c = 4" and "p + c \<le> length bs" and "length bs < 2 ^ 32"
  shows "map (\<lambda>i. ucast (drop_bit (8 * i) (fst (pack_bytes c 0 bs (0, of_nat p))) AND 0xff))
           [0..<c] = take c (drop p bs)"
  using assms(1)
proof
  assume c: "c = 1"
  with assms have "p < length bs"
    by simp
  then have "take 1 (drop p bs) = [bs ! p]"
    by (simp add: take_Suc_conv_app_nth)
  moreover from \<open>p < length bs\<close> assms(3)
  have "fst (pack_bytes 1 0 bs (0, of_nat p)) = ucast (bs ! p)"
    by (rule pack_bytes1)
  ultimately show ?thesis
    unfolding c by (simp add: unpack_pack1 del: pack_bytes.simps)
next
  assume c: "c = 4"
  have u: "[0..<4] = [0, 1, 2, 3]"
    by (simp add: upt_conv_Cons)
  from c assms have p: "p + 4 \<le> length bs"
    by simp
  show ?thesis
    unfolding c pack_bytes4 [OF p assms(3)] take4_drop [OF p] u
    using unpack_pack4 [of "bs ! p" "bs ! (p + 1)" "bs ! (p + 2)" "bs ! (p + 3)"]
    by simp
qed


lemma send_body_register:
  assumes "pending (globals l) = []" and "Chunk l = 1 \<or> Chunk l = 4"
  shows "tstate (globals (send_body register_target P l)) =
           (tstate (globals l))
             (Address l := fst (pack_bytes (unat (Chunk l)) 0 (FileBuffer (globals l))
                                  (0, Length l)))"
    and "pending (globals (send_body register_target P l)) = []"
    and "calloc_ok (globals (send_body register_target P l)) = calloc_ok (globals l)"
  using assms
  by (auto simp: send_body_def split_beta Let_def write_command_def send_line_def
        fprintf_sam9_def register_target_write GetResponse_eq printf_def
        simp del: pack_bytes.simps)

lemma read_command_register:
  assumes "pending (globals l) = []" and "Chunk l = 1 \<or> Chunk l = 4"
  shows "pending (read_command register_target P l) =
           bytes ''\<newline>0x'' @ printf_hex True 8 (tstate (globals l) (Address l))
           @ bytes ''\<newline>>''"
    and "tstate (read_command register_target P l) = tstate (globals l)"
  using assms
  by (auto simp: read_command_def send_line_def fprintf_sam9_def register_target_read
        printf_def Let_def)


lemma calloc_ok_frame [simp]:
  "calloc_ok (store_bytes k v s) = calloc_ok s"
  "calloc_ok (printf m s) = calloc_ok s"
  "calloc_ok (snd (GetResponse e s)) = calloc_ok s"
  "calloc_ok (read_command T P l) = calloc_ok (globals l)"
proof -
  show "calloc_ok (store_bytes k v s) = calloc_ok s"
    by (induction k v s rule: store_bytes.induct) simp_all
qed (simp_all add: printf_def GetResponse_eq read_command_def)

lemma GetResponse_register:
  assumes "pending (globals l) = []" and "Chunk l = 1 \<or> Chunk l = 4"
  shows "fst (GetResponse e (read_command register_target P l)) = tstate (globals l) (Address l)"
proof -
  note p = read_command_register(1) [OF assms, of P]
  have tk: "take 30 (pending (read_command register_target P l))
            = pending (read_command register_target P l)"
    by (simp add: p length_printf_hex8)
  show ?thesis
    unfolding GetResponse_eq fst_conv tk unfolding p by (rule scan_reply)
qed

lemma LoadMemory_body_register:
  assumes "pending (globals l) = []" and "Chunk l = 1 \<or> Chunk l = 4"
    and "unat (MemoryCount (globals l)) + unat (Chunk l) \<le> length (MemoryBuffer (globals l))"
    and "length (MemoryBuffer (globals l)) < 2 ^ 32"
  shows "pending (read_command register_target P l) \<noteq> []"
    and "tstate (globals (LoadMemory_body register_target P St C l)) = tstate (globals l)"
    and "pending (globals (LoadMemory_body register_target P St C l)) = []"
    and "calloc_ok (globals (LoadMemory_body register_target P St C l)) = calloc_ok (globals l)"
    and "MemoryBuffer (globals (LoadMemory_body register_target P St C l)) =
           take (unat (MemoryCount (globals l))) (MemoryBuffer (globals l))
           @ map (\<lambda>i. ucast (drop_bit (8 * i) (tstate (globals l) (Address l)) AND 0xff))
               [0..<unat (Chunk l)]
           @ drop (unat (MemoryCount (globals l)) + unat (Chunk l)) (MemoryBuffer (globals l))"
proof -
  let ?r = "read_command register_target P l"
  let ?g = "GetResponse (FlagTrace P) ?r"
  note p = read_command_register [OF assms(1,2), of P]
  show ne: "pending ?r \<noteq> []"
    by (simp add: p)
  then have rc: "ResponseCount (snd ?g) \<noteq> 0"
    by (simp add: ResponseCount_zero_iff)
  have v: "fst ?g = tstate (globals l) (Address l)"
    by (rule GetResponse_register [OF assms(1,2)])
  have d: "drop 30 (pending ?r) = []"
    by (simp add: p length_printf_hex8)
  from assms(3,4) have b: "unat (MemoryCount (snd ?g)) + unat (Chunk l) \<le> length (MemoryBuffer (snd ?g))"
    "length (MemoryBuffer (snd ?g)) < 2 ^ 32"
    by simp_all
  note sb = store_bytes_buffer [OF b, of "fst ?g"]
  from rc show "tstate (globals (LoadMemory_body register_target P St C l)) = tstate (globals l)"
    by (simp add: LoadMemory_body_def split_beta Let_def p)
  from rc d show "pending (globals (LoadMemory_body register_target P St C l)) = []"
    by (simp add: LoadMemory_body_def split_beta Let_def)
  from rc show "calloc_ok (globals (LoadMemory_body register_target P St C l)) = calloc_ok (globals l)"
    by (simp add: LoadMemory_body_def split_beta Let_def)
  from rc sb show "MemoryBuffer (globals (LoadMemory_body register_target P St C l)) =
           take (unat (MemoryCount (globals l))) (MemoryBuffer (globals l))
           @ map (\<lambda>i. ucast (drop_bit (8 * i) (tstate (globals l) (Address l)) AND 0xff))
               [0..<unat (Chunk l)]
           @ drop (unat (MemoryCount (globals l)) + unat (Chunk l)) (MemoryBuffer (globals l))"
    by (simp add: LoadMemory_body_def split_beta Let_def v)
qed


lemma offset_distinct:
  assumes "i < 2 ^ 32" and "j < 2 ^ 32" and "i \<noteq> j"
  shows "(St + of_nat i :: bit32) \<noteq> St + of_nat j"
proof
  assume "St + of_nat i = St + of_nat j"
  then have "(of_nat i :: bit32) = of_nat j"
    by simp
  then have "unat (of_nat i :: bit32) = unat (of_nat j :: bit32)"
    by simp
  with assms show False
    by (simp add: unat_of_nat32)
qed

lemma chunk_step_nat:
  assumes "n < 2 ^ 32" and "p < n"
  defines "c \<equiv> (if 4 \<le> n - p then 4 else 1 :: nat)"
  shows "(of_nat p :: bit32) < of_nat n"
    and "(if 4 \<le> n - p then 4 else 1 :: bit32) = of_nat c"
    and "(of_nat p + of_nat c :: bit32) = of_nat (p + c)"
    and "p + c \<le> n"
    and "(if (of_nat n :: bit32) - (of_nat p + of_nat c) < 4 then 1 else of_nat c)
         = (if 4 \<le> n - (p + c) then 4 else 1 :: bit32)"
    and "unat (of_nat c :: bit32) = c"
    and "c = 1 \<or> c = 4"
proof -
  from assms(1,2) have u: "unat (of_nat p :: bit32) = p" "unat (of_nat n :: bit32) = n"
    by (simp_all add: unat_of_nat32)
  then show lt: "(of_nat p :: bit32) < of_nat n"
    using assms(2) by (simp add: word_less_nat_alt)
  show cw: "(if 4 \<le> n - p then 4 else 1 :: bit32) = of_nat c"
    by (simp add: c_def)
  show "(of_nat p + of_nat c :: bit32) = of_nat (p + c)"
    by simp
  from assms(2) show le: "p + c \<le> n"
    by (auto simp: c_def)
  show uc: "unat (of_nat c :: bit32) = c"
    by (simp add: c_def)
  show "c = 1 \<or> c = 4"
    by (simp add: c_def)
  have "(of_nat c :: bit32) = (if 4 \<le> unat (of_nat n :: bit32) - unat (of_nat p :: bit32) then 4 else 1)"
    unfolding u by (simp add: c_def)
  note st = chunk_step [OF lt this]
  from st(1) have "unat (of_nat p + of_nat c :: bit32) = p + c"
    by (simp only: u uc)
  with st(3) show "(if (of_nat n :: bit32) - (of_nat p + of_nat c) < 4 then 1 else of_nat c)
         = (if 4 \<le> n - (p + c) then 4 else 1 :: bit32)"
    by (simp only: u)
qed

lemma send_loop_unfold:
  "send_loop T P l =
     (if Length l < ValueBytes (globals l) then send_loop T P (send_body T P l) else Some l)"
  unfolding send_loop_def by (rule while_option_unfold)

lemma LoadMemory_loop_unfold:
  "LoadMemory_loop T P St C l =
     (if \<not> returned l \<and> Length l < C then LoadMemory_loop T P St C (LoadMemory_body T P St C l)
      else Some l)"
  unfolding LoadMemory_loop_def by (rule while_option_unfold)

subsection \<open>The two loops, from any offset\<close>

text \<open>
  The send loop with \<open>p\<close> bytes sent ends with nothing pending and with the registers below
  and above the rest of the range as they were; and a download loop with \<open>p\<close> bytes
  downloaded, run on registers that agree with the ones the upload left on the rest of the
  range, ends with the rest of the file behind the \<open>p\<close> bytes it had.
\<close>

lemma roundtrip_from:
  fixes bs :: "byte list" and l :: "(bit32 \<Rightarrow> bit32) xfer"
  assumes n: "length bs < 2 ^ 32"
    and U: "FileBuffer (globals l) = bs" "ValueBytes (globals l) = of_nat (length bs)"
      "Length l = of_nat p" "p \<le> length bs"
      "Chunk l = (if 4 \<le> length bs - p then 4 else 1)"
      "Address l = St + of_nat p" "pending (globals l) = []"
  shows "\<exists>l'. send_loop register_target P l = Some l'
      \<and> pending (globals l') = [] \<and> calloc_ok (globals l') = calloc_ok (globals l)
      \<and> MemoryCount (globals l') = MemoryCount (globals l)
      \<and> ValueBytes (globals l') = of_nat (length bs)
      \<and> (\<forall>a. (\<forall>j. p \<le> j \<and> j < length bs \<longrightarrow> a \<noteq> St + of_nat j) \<longrightarrow>
             tstate (globals l') a = tstate (globals l) a)
      \<and> (\<forall>d :: (bit32 \<Rightarrow> bit32) xfer.
            Length d = of_nat p \<and> Chunk d = (if 4 \<le> length bs - p then 4 else 1)
            \<and> Address d = St + of_nat p \<and> MemoryCount (globals d) = of_nat p
            \<and> length (MemoryBuffer (globals d)) = length bs \<and> pending (globals d) = []
            \<and> \<not> returned d
            \<and> (\<forall>j. p \<le> j \<and> j < length bs \<longrightarrow>
                   tstate (globals d) (St + of_nat j) = tstate (globals l') (St + of_nat j)) \<longrightarrow>
            (\<exists>d'. LoadMemory_loop register_target P St (of_nat (length bs)) d = Some d'
               \<and> \<not> returned d' \<and> MemoryCount (globals d') = of_nat (length bs)
               \<and> MemoryBuffer (globals d')
                   = take p (MemoryBuffer (globals d)) @ drop p bs))"
  using U
proof (induction "length bs - p" arbitrary: p l rule: less_induct)
  case less
  let ?n = "length bs"
  note U = less.prems
  show ?case
  proof (cases "p < ?n")
    case False
    with U have p: "p = ?n"
      by simp
    have stop: "\<not> Length l < ValueBytes (globals l)"
      by (simp add: U p)
    then have s: "send_loop register_target P l = Some l"
      by (subst send_loop_unfold) simp
    have "LoadMemory_loop register_target P St (of_nat ?n) d = Some d
          \<and> MemoryBuffer (globals d) = take p (MemoryBuffer (globals d)) @ drop p bs"
      if "Length d = of_nat p" "length (MemoryBuffer (globals d)) = length bs"
      for d :: "(bit32 \<Rightarrow> bit32) xfer"
      using that by (subst LoadMemory_loop_unfold) (simp add: p)
    with s U show ?thesis
      by (auto simp: p)
  next
    case True
    define c where "c = (if 4 \<le> ?n - p then 4 else 1 :: nat)"
    note cs = chunk_step_nat [OF n True, folded c_def]
    let ?l1 = "send_body register_target P l"
    have ch: "Chunk l = of_nat c" "Chunk l = 1 \<or> Chunk l = 4" "unat (Chunk l) = c"
      using U(5) cs(2,6,7) by auto
    note sb = send_body_register [OF U(7) ch(2), of P]
    have cont: "Length l < ValueBytes (globals l)"
      using cs(1) by (simp add: U)
    have s1: "send_loop register_target P l = send_loop register_target P ?l1"
      using cont by (subst send_loop_unfold) simp
    have U1: "FileBuffer (globals ?l1) = bs" "ValueBytes (globals ?l1) = of_nat ?n"
      "Length ?l1 = of_nat (p + c)" "p + c \<le> ?n"
      "Chunk ?l1 = (if 4 \<le> ?n - (p + c) then 4 else 1)"
      "Address ?l1 = St + of_nat (p + c)" "pending (globals ?l1) = []"
    proof -
      show "FileBuffer (globals ?l1) = bs" "ValueBytes (globals ?l1) = of_nat ?n"
        by (simp_all add: send_body_simps U(1,2))
      show "Length ?l1 = of_nat (p + c)"
        by (simp add: send_body_simps U(3) ch(1))
      show "p + c \<le> ?n"
        by (rule cs(4))
      show "Chunk ?l1 = (if 4 \<le> ?n - (p + c) then 4 else 1)"
        by (simp only: send_body_simps U(2,3) ch(1) cs(5))
      show "Address ?l1 = St + of_nat (p + c)"
        by (simp add: send_body_simps U(6) ch(1) add.assoc)
      show "pending (globals ?l1) = []"
        by (rule sb(2))
    qed
    from cs(7) True have m: "?n - (p + c) < ?n - p"
      by auto
    from less.hyps [OF m U1] obtain l' where
      l': "send_loop register_target P ?l1 = Some l'"
      and f1: "pending (globals l') = []" "calloc_ok (globals l') = calloc_ok (globals ?l1)"
        "MemoryCount (globals l') = MemoryCount (globals ?l1)"
        "ValueBytes (globals l') = of_nat ?n"
      and fr: "\<forall>a. (\<forall>j. p + c \<le> j \<and> j < ?n \<longrightarrow> a \<noteq> St + of_nat j) \<longrightarrow>
                 tstate (globals l') a = tstate (globals ?l1) a"
      and dl: "\<forall>d :: (bit32 \<Rightarrow> bit32) xfer.
            Length d = of_nat (p + c) \<and> Chunk d = (if 4 \<le> ?n - (p + c) then 4 else 1)
            \<and> Address d = St + of_nat (p + c) \<and> MemoryCount (globals d) = of_nat (p + c)
            \<and> length (MemoryBuffer (globals d)) = ?n \<and> pending (globals d) = []
            \<and> \<not> returned d
            \<and> (\<forall>j. p + c \<le> j \<and> j < ?n \<longrightarrow>
                   tstate (globals d) (St + of_nat j) = tstate (globals l') (St + of_nat j)) \<longrightarrow>
            (\<exists>d'. LoadMemory_loop register_target P St (of_nat ?n) d = Some d'
               \<and> \<not> returned d' \<and> MemoryCount (globals d') = of_nat ?n
               \<and> MemoryBuffer (globals d')
                   = take (p + c) (MemoryBuffer (globals d)) @ drop (p + c) bs)"
      by blast
    define v where "v = fst (pack_bytes c 0 bs (0, of_nat p))"
    have t1: "tstate (globals ?l1) = (tstate (globals l))(St + of_nat p := v)"
      by (simp only: sb(1) U(1,3,6) ch(3) v_def)
    have pn: "p < 2 ^ 32"
      using True n by simp
    have A: "send_loop register_target P l = Some l'"
      by (simp only: s1 l')
    have B: "pending (globals l') = []" "calloc_ok (globals l') = calloc_ok (globals l)"
      "MemoryCount (globals l') = MemoryCount (globals l)"
      "ValueBytes (globals l') = of_nat ?n"
      using f1 sb(3) by (simp_all add: send_body_simps)
    have C: "tstate (globals l') a = tstate (globals l) a"
      if a: "\<forall>j. p \<le> j \<and> j < ?n \<longrightarrow> a \<noteq> St + of_nat j" for a
    proof -
      from a have "\<forall>j. p + c \<le> j \<and> j < ?n \<longrightarrow> a \<noteq> St + of_nat j"
        by simp
      with fr have "tstate (globals l') a = tstate (globals ?l1) a"
        by blast
      moreover from a True have "a \<noteq> St + of_nat p"
        by blast
      ultimately show ?thesis
        by (simp add: t1)
    qed
    have vp: "tstate (globals l') (St + of_nat p) = v"
    proof -
      have "\<forall>j. p + c \<le> j \<and> j < ?n \<longrightarrow> St + of_nat p \<noteq> St + of_nat j"
      proof (intro allI impI)
        fix j
        assume j: "p + c \<le> j \<and> j < ?n"
        with cs(7) have "p \<noteq> j"
          by auto
        moreover from j n have "j < 2 ^ 32"
          by simp
        ultimately show "St + of_nat p \<noteq> St + of_nat j"
          using pn by (intro offset_distinct)
      qed
      with fr have "tstate (globals l') (St + of_nat p) = tstate (globals ?l1) (St + of_nat p)"
        by blast
      then show ?thesis
        by (simp add: t1)
    qed
    have D: "\<exists>d'. LoadMemory_loop register_target P St (of_nat ?n) d = Some d'
               \<and> \<not> returned d' \<and> MemoryCount (globals d') = of_nat ?n
               \<and> MemoryBuffer (globals d') = take p (MemoryBuffer (globals d)) @ drop p bs"
      if d: "Length d = of_nat p" "Chunk d = (if 4 \<le> ?n - p then 4 else 1)"
        "Address d = St + of_nat p" "MemoryCount (globals d) = of_nat p"
        "length (MemoryBuffer (globals d)) = ?n" "pending (globals d) = []" "\<not> returned d"
        and ag: "\<forall>j. p \<le> j \<and> j < ?n \<longrightarrow>
                   tstate (globals d) (St + of_nat j) = tstate (globals l') (St + of_nat j)"
      for d :: "(bit32 \<Rightarrow> bit32) xfer"
    proof -
      let ?M = "MemoryBuffer (globals d)"
      let ?d1 = "LoadMemory_body register_target P St (of_nat ?n) d"
      have dch: "Chunk d = of_nat c" "Chunk d = 1 \<or> Chunk d = 4" "unat (Chunk d) = c"
        using d(2) cs(2,6,7) by auto
      have up: "unat (of_nat p :: bit32) = p"
        using pn by (rule unat_of_nat32)
      have b: "unat (MemoryCount (globals d)) + unat (Chunk d) \<le> length ?M"
        "length ?M < 2 ^ 32"
        using cs(4) n by (simp_all only: d(4,5) up dch(3))
      note lb = LoadMemory_body_register(1) [OF d(6) dch(2) b, of P]
        LoadMemory_body_register(2-5) [OF d(6) dch(2) b, of P St "of_nat ?n"]
      note la = LoadMemory_body_answer [OF lb(1), of St "of_nat ?n"]
      from ag True vp have dv: "tstate (globals d) (Address d) = v"
        by (simp add: d(3))
      have M1: "MemoryBuffer (globals ?d1) = take p ?M @ take c (drop p bs) @ drop (p + c) ?M"
        using unpack_pack [OF cs(7) cs(4) n]
        by (simp only: lb(5) dv d(4) up dch(3) v_def)
      have D1: "Length ?d1 = of_nat (p + c)"
        "Chunk ?d1 = (if 4 \<le> ?n - (p + c) then 4 else 1)"
        "Address ?d1 = St + of_nat (p + c)" "MemoryCount (globals ?d1) = of_nat (p + c)"
        "length (MemoryBuffer (globals ?d1)) = ?n" "pending (globals ?d1) = []"
        "\<not> returned ?d1"
      proof -
        show "Length ?d1 = of_nat (p + c)"
          by (simp add: la d(1) dch(1))
        show "Chunk ?d1 = (if 4 \<le> ?n - (p + c) then 4 else 1)"
          by (simp only: la d(1) dch(1) cs(5))
        show "Address ?d1 = St + of_nat (p + c)"
          by (simp add: la d(3) dch(1) add.assoc)
        show "MemoryCount (globals ?d1) = of_nat (p + c)"
          by (simp add: la d(4) dch(1))
        show "length (MemoryBuffer (globals ?d1)) = ?n"
          by (simp only: la d(5))
        show "pending (globals ?d1) = []"
          by (rule lb(3))
        show "\<not> returned ?d1"
          by (simp only: la d(7) not_False_eq_True)
      qed
      have ag1: "\<forall>j. p + c \<le> j \<and> j < ?n \<longrightarrow>
                   tstate (globals ?d1) (St + of_nat j) = tstate (globals l') (St + of_nat j)"
        using ag by (simp add: lb(2))
      from dl [rule_format, of ?d1] D1 ag1 obtain d' where
        d': "LoadMemory_loop register_target P St (of_nat ?n) ?d1 = Some d'"
        "\<not> returned d'" "MemoryCount (globals d') = of_nat ?n"
        "MemoryBuffer (globals d')
           = take (p + c) (MemoryBuffer (globals ?d1)) @ drop (p + c) bs"
        by blast
      have cont: "\<not> returned d \<and> Length d < of_nat ?n"
        using cs(1) by (simp add: d(1,7))
      have e: "LoadMemory_loop register_target P St (of_nat ?n) d
               = LoadMemory_loop register_target P St (of_nat ?n) ?d1"
        using cont by (subst LoadMemory_loop_unfold) simp
      have lp: "length (take p ?M) = p" "length (take c (drop p bs)) = c"
        using True cs(4) by (simp_all add: d(5))
      have "take (p + c) (MemoryBuffer (globals ?d1)) = take p ?M @ take c (drop p bs)"
        unfolding M1 using lp by simp
      moreover have "take c (drop p bs) @ drop (p + c) bs = drop p bs"
        using append_take_drop_id [of c "drop p bs"] by (simp add: add.commute)
      ultimately have "MemoryBuffer (globals d') = take p ?M @ drop p bs"
        by (simp add: d'(4))
      with e d' show ?thesis
        by simp
    qed
    from A B C D show ?thesis
      by blast
  qed
qed

section \<open>The response burst (C10)\<close>

text \<open>
  C10. One call of \<open>GetResponse\<close> stores the first 30 bytes of what the stream holds, however
  much that is, so the terminator \<^verbatim>\<open>Response[n] = 0\<close> lands at an index of at most 30 in the
  32-byte buffer. \<open>ResponseCount\<close> is the number of bytes stored. A burst without the marker
  \<^verbatim>\<open>0x\<close> gives the value 0. What a longer reply holds beyond 30 bytes stays in the stream,
  and the next call stores its first 30 bytes.
\<close>

theorem GetResponse_burst_bound:
  "fst (read_burst 0 (pending s)) = take 30 (pending s)
   \<and> length (fst (read_burst 0 (pending s))) \<le> 30
   \<and> pending (snd (GetResponse trace s)) = drop 30 (pending s)
   \<and> unat (ResponseCount (snd (GetResponse trace s))) = length (take 30 (pending s))
   \<and> (\<not> sublist (bytes ''0x'') (take 30 (pending s)) \<longrightarrow> fst (GetResponse trace s) = 0)
   \<and> fst (read_burst 0 (pending (snd (GetResponse trace s)))) = take 30 (drop 30 (pending s))"
proof -
  have n: "unat (of_nat (min (length (pending s)) 30) :: bit32) = min (length (pending s)) 30"
    by (rule unat_of_nat32) (simp add: min_def)
  show ?thesis
    using scan_no_marker [of "take 30 (pending s)" 0]
    by (simp add: GetResponse_eq read_burst_eq n)
qed

text \<open>
  A reply of 40 bytes whose marker lies beyond the 30th: the first call stores 30 bytes and
  returns 0, and the 10 bytes with the marker are left for the next call.
\<close>

theorem GetResponse_burst_bound_witness:
  "\<not> sublist (bytes ''0x'') (take 30 (bytes ''ROMBoot monitor for AT91SAM9, value 0x1A''))
   \<and> fst (GetResponse True
            ((initial () None 0)\<lparr>pending := bytes ''ROMBoot monitor for AT91SAM9, value 0x1A''\<rparr>)) = 0
   \<and> unat (ResponseCount (snd (GetResponse True
            ((initial () None 0)\<lparr>pending := bytes ''ROMBoot monitor for AT91SAM9, value 0x1A''\<rparr>)))) = 30
   \<and> pending (snd (GetResponse True
            ((initial () None 0)\<lparr>pending := bytes ''ROMBoot monitor for AT91SAM9, value 0x1A''\<rparr>)))
       = bytes ''value 0x1A''"
proof -
  have m: "\<not> sublist (bytes ''0x'') (take 30 (bytes ''ROMBoot monitor for AT91SAM9, value 0x1A''))"
    by (simp add: sublist_Cons_right)
  show ?thesis
    using m GetResponse_burst_bound
            [of "(initial () None 0)\<lparr>pending := bytes ''ROMBoot monitor for AT91SAM9, value 0x1A''\<rparr>"
                True]
    by simp
qed

section \<open>The marker scan (C5)\<close>

text \<open>
  C5. The scan is a matcher of three states that looks for \<^verbatim>\<open>0x\<close> and hands the rest of the
  burst to \<^verbatim>\<open>sscanf\<close>. In state 1 a byte other than \<^verbatim>\<open>x\<close> sends it back to state 0 and
  is consumed there: the \<^verbatim>\<open>0\<close> that follows another \<^verbatim>\<open>0\<close> does not start a new match.
  On the burst \<^verbatim>\<open>00x1A\<close> all five bytes are stored and the value is 0, where the burst
  \<^verbatim>\<open>0x1A\<close> gives \<open>0x1A\<close>.
\<close>

theorem GetResponse_00x1A:
  "fst (GetResponse trace (s\<lparr>pending := bytes ''00x1A''\<rparr>)) = 0
   \<and> ResponseCount (snd (GetResponse trace (s\<lparr>pending := bytes ''00x1A''\<rparr>))) = 5
   \<and> fst (GetResponse trace (s\<lparr>pending := bytes ''0x1A''\<rparr>)) = 0x1A"
  by (simp add: GetResponse_eq sscanf_X_def skip_0x_def xdigit_val_def isspace_def)

section \<open>Carriage return in the terminal (C6)\<close>

text \<open>
  C6, as the program has it. When the console delivers the byte \<open>0x0D\<close>, \<open>Key\<close> becomes
  \<^verbatim>\<open>#\<close> before anything is written. So the target is sent \<^verbatim>\<open>#\<close> and not \<open>0x0D\<close>, and the
  echo test that follows sees \<^verbatim>\<open>#\<close>, which is printable: the console is written \<^verbatim>\<open>#\<close>
  too, ahead of whatever the target has pending or answers.
\<close>

theorem terminal_cycle_carriage_return:
  "sent (snd (terminal_cycle T (Some 0x0d) (Key, s))) = sent s @ bytes ''#''
   \<and> stdout (snd (terminal_cycle T (Some 0x0d) (Key, s))) =
       stdout s @ Text (bytes ''#'')
         # map (\<lambda>c. Text [c]) (pending s @ snd (T (tstate s) (bytes ''#'')))"
  by (simp add: terminal_cycle_def fprintf_sam9_def printf_def drain_eq Let_def split: prod.split)

text \<open>
  The claim as the specification words it has no local echo for this key. With a silent
  target and nothing pending, one pass that reads \<open>0x0D\<close> sends \<^verbatim>\<open>#\<close> and leaves \<^verbatim>\<open>#\<close> on
  the console.
\<close>

theorem carriage_return_is_echoed:
  "sent (snd (terminal_cycle silent_target (Some 0x0d) (0, initial () None 0))) = bytes ''#''
   \<and> stdout (snd (terminal_cycle silent_target (Some 0x0d) (0, initial () None 0)))
       = [Text (bytes ''#'')]"
  by (simp add: terminal_cycle_def fprintf_sam9_def printf_def silent_target_def initial_def)

section \<open>Leaving the terminal (C7)\<close>

text \<open>
  C7. The loop is to end with the pass in which Escape or Ctrl-C was read from the console.
  The drain of the target's bytes reuses \<open>Key\<close> and sets it to 0 after every byte, so the
  test at the end of the pass sees 0 whenever the target had a byte pending: the Escape is
  forwarded and forgotten, and the loop runs on. With nothing pending the same key ends the
  loop.
\<close>

theorem escape_lost_when_target_talks:
  "fst (terminal_cycle T (Some 0x1b) (Key, s\<lparr>pending := c # p\<rparr>)) = 0
   \<and> fst (terminal_loop T [Some 0x1b] (Key, s\<lparr>pending := c # p\<rparr>)) = False
   \<and> fst (terminal_loop silent_target [Some 0x1b] (0, initial () None 0)) = True"
  by (simp add: terminal_cycle_def fprintf_sam9_def printf_def drain_eq Let_def
        silent_target_def initial_def split: prod.split)

section \<open>The hex dump (C9)\<close>

text \<open>
  C9, as the program has it. The dump prints one row for every 16 bytes of the image, the
  last row holding what is left. A row is the address label, which grows by 16 from row to
  row, two blanks, every byte as two hexadecimal digits followed by one blank, blanks in
  place of the bytes a short last row does not have, one more blank, and the gutter: each
  byte as itself when it is above \<open>0x1f\<close> and below \<open>0x7f\<close>, as a dot otherwise, filled up with
  blanks to 16 columns. Every hex column is three characters wide: there is no wider gap
  after the eighth byte.
\<close>

theorem dump_rows_layout:
  assumes "unat count \<le> length buf"
  shows "dump_rows buf count a 0 = map Text (dump_format a (take (unat count) buf))
         \<and> length (dump_rows buf count a 0) = (unat count + 15) div 16"
  using assms dump_rows_eq [of 0 count buf a] by (simp add: length_dump_format)

theorem dump_rows_layout_witness:
  "unat (17 :: bit32) \<le> length (bytes ''Hello, SAM9 boot'' @ [0x7f])
   \<and> dump_rows (bytes ''Hello, SAM9 boot'' @ [0x7f]) 17 0x300000 0 =
       map Text (dump_format 0x300000 (bytes ''Hello, SAM9 boot'' @ [0x7f]))
   \<and> length (dump_rows (bytes ''Hello, SAM9 boot'' @ [0x7f]) 17 0x300000 0) = 2"
proof -
  have h: "unat (17 :: bit32) \<le> length (bytes ''Hello, SAM9 boot'' @ [0x7f])"
    by simp
  from dump_rows_layout [OF h, where a = "0x300000"] h show ?thesis
    by auto
qed

text \<open>
  The claim as the specification words it has an extra blank after the eighth byte. The
  dump of a 17-byte image, evaluated: in the first row \<^verbatim>\<open>53\<close> (the eighth byte) and
  \<^verbatim>\<open>41\<close> (the ninth) are one blank apart, like every other pair.
\<close>

theorem dump_no_extra_space:
  "dump_rows (bytes ''Hello, SAM9 boot'' @ [0x7f]) 17 0x300000 0 =
     [Text (bytes ''$300000  48 65 6c 6c 6f 2c 20 53 41 4d 39 20 62 6f 6f 74  Hello, SAM9 boot\<newline>''),
      Text (bytes ''$300010  7f                                               .               \<newline>'')]"
  by (simp add: dump_rows.simps dump_row.simps printf_hex_def hexdigits.simps hexdigit_def
        Let_def replicate_numeral)

section \<open>Verify (C4)\<close>

text \<open>
  C4, as the program has it. The verify section compares the file buffer and the memory
  buffer over the byte count \<open>ValueBytes\<close>. For buffers of that many bytes and a byte count
  that is not 0 the section succeeds, printing one line, if and only if the two buffers are
  equal; otherwise it reports the lowest offset at which they differ on \<open>stderr\<close>, once,
  clears \<open>Success\<close> and changes nothing else, the loop ending with that first mismatch. Both
  buffers hold that many bytes when \<^verbatim>\<open>main\<close> gets there: a \<open>LoadFile\<close> that succeeds has
  read exactly \<open>ValueBytes\<close> bytes, the first ones of the file, and the buffer of a
  \<open>LoadMemory\<close> that succeeds has \<open>ValueBytes\<close> bytes. The program has no comparison of
  lengths and no outcome for unequal ones.
\<close>

theorem stage_verify_correct:
  assumes "Success s" and "FlagVerify P" and "ValueBytes s \<noteq> 0"
    and "length (FileBuffer s) = unat (ValueBytes s)"
    and "length (MemoryBuffer s) = unat (ValueBytes s)"
  shows "(Success (stage_verify P s) \<longleftrightarrow> FileBuffer s = MemoryBuffer s)
    \<and> stage_verify P s =
        (case first_mismatch (FileBuffer s) (MemoryBuffer s) of
           None \<Rightarrow> printf (Verified (ValueAddrStart P) (ValueBytes s)) s
         | Some k \<Rightarrow>
             (eprintf (Verify_error (ValueAddrStart P) (ValueBytes s) (of_nat k)) s)
               \<lparr>Success := False\<rparr>)
    \<and> (\<forall>k. first_mismatch (FileBuffer s) (MemoryBuffer s) = Some k \<longrightarrow>
           k < unat (ValueBytes s) \<and> FileBuffer s ! k \<noteq> MemoryBuffer s ! k
           \<and> (\<forall>j<k. FileBuffer s ! j = MemoryBuffer s ! j))
    \<and> (LoadFile s0 = (True, s1) \<longrightarrow>
           ValueBytes s1 \<noteq> 0 \<and> length (FileBuffer s1) = unat (ValueBytes s1)
           \<and> (\<exists>content. host_file s0 = Some content
                 \<and> FileBuffer s1 = take (unat (ValueBytes s1)) content))
    \<and> (LoadMemory T P St C s2 = Some (True, s3) \<and> ValueBytes s2 = C \<and> MemoryCount s2 = 0 \<longrightarrow>
           length (MemoryBuffer s3) = unat C)"
proof -
  have loop: "verify_loop P 0 s =
     (case first_mismatch (FileBuffer s) (MemoryBuffer s) of
        None \<Rightarrow> s
      | Some k \<Rightarrow>
          (eprintf (Verify_error (ValueAddrStart P) (ValueBytes s) (of_nat k)) s)
            \<lparr>Success := False\<rparr>)"
    using verify_loop_eq [OF assms(1) _ assms(4,5), of 0 P] by (simp split: option.split)
  have none: "first_mismatch (FileBuffer s) (MemoryBuffer s) = None
              \<longleftrightarrow> FileBuffer s = MemoryBuffer s"
    by (rule first_mismatch_None) (simp add: assms)
  have stage: "stage_verify P s =
        (case first_mismatch (FileBuffer s) (MemoryBuffer s) of
           None \<Rightarrow> printf (Verified (ValueAddrStart P) (ValueBytes s)) s
         | Some k \<Rightarrow>
             (eprintf (Verify_error (ValueAddrStart P) (ValueBytes s) (of_nat k)) s)
               \<lparr>Success := False\<rparr>)"
    using assms(1-3)
    by (simp add: stage_verify_def loop Let_def printf_def eprintf_def split: option.split)
  have succ: "Success (stage_verify P s) \<longleftrightarrow> FileBuffer s = MemoryBuffer s"
    using assms(1) none
    by (cases "first_mismatch (FileBuffer s) (MemoryBuffer s)")
       (simp_all add: stage printf_def eprintf_def)
  have least: "\<forall>k. first_mismatch (FileBuffer s) (MemoryBuffer s) = Some k \<longrightarrow>
           k < unat (ValueBytes s) \<and> FileBuffer s ! k \<noteq> MemoryBuffer s ! k
           \<and> (\<forall>j<k. FileBuffer s ! j = MemoryBuffer s ! j)"
    using first_mismatch_Some [of "FileBuffer s" "MemoryBuffer s"] assms(4) by auto
  have lf: "LoadFile s0 = (True, s1) \<longrightarrow>
           ValueBytes s1 \<noteq> 0 \<and> length (FileBuffer s1) = unat (ValueBytes s1)
           \<and> (\<exists>content. host_file s0 = Some content
                 \<and> FileBuffer s1 = take (unat (ValueBytes s1)) content)"
    using LoadFile_length [of s0 s1] by blast
  have mem: "LoadMemory T P St C s2 = Some (True, s3) \<and> ValueBytes s2 = C \<and> MemoryCount s2 = 0 \<longrightarrow>
           length (MemoryBuffer s3) = unat C"
  proof
    assume a: "LoadMemory T P St C s2 = Some (True, s3) \<and> ValueBytes s2 = C \<and> MemoryCount s2 = 0"
    then have "calloc_ok s2 C"
      by (auto simp: LoadMemory_def split: if_splits)
    with a show "length (MemoryBuffer s3) = unat C"
      using LoadMemory_length [of T P St C s2 True s3] by blast
  qed
  from succ stage least lf mem show ?thesis
    by (intro conjI)
qed

text \<open>
  The example of the specification: \<open>[0x01, 0x02, 0x03]\<close> against \<open>[0x01, 0xFF, 0x03]\<close> is a
  mismatch at offset 1.
\<close>

theorem stage_verify_correct_witness:
  "stage_verify ((quiet_run 0x300000)\<lparr>FlagVerify := True\<rparr>)
     ((initial () None 3)\<lparr>FileBuffer := [0x01, 0x02, 0x03], MemoryBuffer := [0x01, 0xFF, 0x03]\<rparr>)
   = (initial () None 3)
       \<lparr>FileBuffer := [0x01, 0x02, 0x03], MemoryBuffer := [0x01, 0xFF, 0x03],
        Success := False, stderr := [Verify_error 0x300000 3 1]\<rparr>"
proof -
  let ?s = "(initial () None 3)\<lparr>FileBuffer := [0x01, 0x02, 0x03],
                                     MemoryBuffer := [0x01, 0xFF, 0x03]\<rparr>"
  let ?P = "(quiet_run 0x300000)\<lparr>FlagVerify := True\<rparr>"
  have h: "Success ?s" "FlagVerify ?P" "ValueBytes ?s \<noteq> 0"
    "length (FileBuffer ?s) = unat (ValueBytes ?s)"
    "length (MemoryBuffer ?s) = unat (ValueBytes ?s)"
    by (simp_all add: initial_def quiet_run_def)
  from stage_verify_correct [OF h, THEN conjunct2, THEN conjunct1] show ?thesis
    by (simp add: initial_def quiet_run_def eprintf_def)
qed

text \<open>
  The claim as the specification words it makes unequal lengths a failure of their own. A
  run with \<^verbatim>\<open>-v -n=3\<close> on a file of five bytes, against a target whose first three bytes are
  those of the file: the file is cut to three bytes and the run ends with the memory
  verified and nothing on \<open>stderr\<close>.
\<close>

theorem verify_ignores_file_size:
  "map_option (\<lambda>s. (Success s, FileBuffer s, MemoryBuffer s, stdout s, stderr s))
     (transfers register_target ((quiet_run 0x300000)\<lparr>FlagVerify := True\<rparr>)
        (initial ((\<lambda>a. 0)(0x300000 := 1, 0x300001 := 2, 0x300002 := 3))
           (Some [1, 2, 3, 4, 5]) 3))
   = Some (True, [1, 2, 3], [1, 2, 3],
           [Text (bytes ''\<newline>''), Loaded_file 3, Downloading 0x300000 0,
            Downloaded 0x300000 3, Verified 0x300000 3],
           [])"
  by (simp add: run_defs)
section \<open>One failure and the sections after it (C8)\<close>

text \<open>
  C8, as the program has it. \<^verbatim>\<open>main\<close> has one flag, \<open>Success\<close>.

  \<^item> Every section from the loading of the file to the writing of the received file is
    guarded by it: once it is cleared, each of them leaves the state as it is, whatever was
    requested. A failed cpu query takes the run straight to the dump section.
  \<^item> The dump section is guarded by \<open>FlagDump\<close> and \<open>MemoryCount\<close> only: it prints the rows of
    whatever has been downloaded also after a failure, and leaves \<open>Success\<close> as it was.
  \<^item> The flag is cleared by a cpu query after which no byte can be read, by a file that
    is not named or does not load, by a download without a byte count or one that
    \<open>LoadMemory\<close> reports as failed, by a verify that finds the buffers different (or has no
    byte count), and by a received file that cannot be opened or written. The handshake,
    the send and the dump leave it as it is, and nothing sets it again.
  \<^item> At the end of \<^verbatim>\<open>main\<close> the interactive terminal is entered on \<open>FlagInteractive\<close>
    alone: also after a failure it prints its banner and, with a go address, sends the
    target \<^verbatim>\<open>#\<close> and the go command. Without \<open>FlagInteractive\<close> a run that has failed
    sends nothing more and exits with code 1.
\<close>

theorem failure_gates_later_sections:
  "(\<not> Success s \<longrightarrow>
      stage_load P s = s \<and> stage_send T P s = Some s \<and> stage_download T P s = Some s
      \<and> stage_verify P s = s \<and> stage_receive P s = s)
   \<and> (\<not> Success (stage_cpu T P (handshake T P s0)) \<longrightarrow>
        transfers T P s0 = Some (stage_dump P (stage_cpu T P (handshake T P s0))))
   \<and> (FlagDump P \<and> MemoryCount s \<noteq> 0 \<longrightarrow>
        stdout (stage_dump P s) =
          stdout s @ Text (bytes ''\<newline>'')
            # dump_rows (MemoryBuffer s) (MemoryCount s) (ValueAddrStart P) 0)
   \<and> Success (stage_dump P s) = Success s
   \<and> Success (handshake T P s) = Success s
   \<and> (Success (stage_cpu T P s) \<longleftrightarrow>
        Success s
        \<and> (FlagCpu P \<longrightarrow> pending (send_line T True (bytes ''wfffff240,4#'') s) \<noteq> []))
   \<and> (Success (stage_load P s) \<longleftrightarrow>
        Success s \<and> (FlagSend P \<or> FlagVerify P \<longrightarrow> ParamFileName P \<and> fst (LoadFile s)))
   \<and> (\<exists>s'. stage_send T P s = Some s' \<and> Success s' = Success s)
   \<and> (\<exists>s'. stage_download T P s = Some s'
          \<and> (Success s' \<longleftrightarrow>
               Success s
               \<and> (FlagVerify P \<or> FlagReceive P \<or> FlagDump P \<longrightarrow>
                    ValueBytes s \<noteq> 0
                    \<and> (\<exists>s1. LoadMemory T P (ValueAddrStart P) (ValueBytes s) s
                              = Some (True, s1)))))
   \<and> (length (FileBuffer s) = unat (ValueBytes s)
        \<and> length (MemoryBuffer s) = unat (ValueBytes s) \<longrightarrow>
        (Success (stage_verify P s) \<longleftrightarrow>
           Success s
           \<and> (FlagVerify P \<longrightarrow> ValueBytes s \<noteq> 0 \<and> FileBuffer s = MemoryBuffer s)))
   \<and> (Success (stage_receive P s) \<longleftrightarrow>
        Success s
        \<and> (FlagReceive P \<and> MemoryCount s \<noteq> 0 \<longrightarrow> fopen_wb_ok s \<and> fwrite_ok s))
   \<and> (transfers T P s0 = Some s1 \<and> FlagInteractive P \<longrightarrow>
        (\<exists>code s2. main T P console s0 = Some (code, s2)
           \<and> Success s2 = Success s1
           \<and> prefix (stdout s1 @ [Terminal_banner (ParamAddrGo P)]) (stdout s2)
           \<and> (ParamAddrGo P \<longrightarrow>
                prefix (sent s1 @ bytes ''#\<newline>'' @ bytes ''G''
                          @ printf_hex True 1 (ValueAddrGo P)) (sent s2))))
   \<and> (transfers T P s0 = Some s1 \<and> \<not> FlagInteractive P \<and> \<not> Success s1 \<longrightarrow>
        main T P console s0 =
          Some (Some 1, printf Exit_failure (printf (Text (bytes ''\<newline>'')) s1)))"
proof -
  have gate: "\<not> Success s \<longrightarrow>
      stage_load P s = s \<and> stage_send T P s = Some s \<and> stage_download T P s = Some s
      \<and> stage_verify P s = s \<and> stage_receive P s = s"
    by (simp add: stage_load_def stage_send_def stage_download_def stage_verify_def
          stage_receive_def)
  have cpu: "\<not> Success (stage_cpu T P (handshake T P s0)) \<longrightarrow>
        transfers T P s0 = Some (stage_dump P (stage_cpu T P (handshake T P s0)))"
    by (simp add: stage_load_def stage_send_def stage_download_def stage_verify_def
          stage_receive_def transfers_def)
  have dump: "FlagDump P \<and> MemoryCount s \<noteq> 0 \<longrightarrow>
        stdout (stage_dump P s) =
          stdout s @ Text (bytes ''\<newline>'')
            # dump_rows (MemoryBuffer s) (MemoryCount s) (ValueAddrStart P) 0"
    "Success (stage_dump P s) = Success s"
    by (simp_all add: stage_dump_def)
  have verify: "length (FileBuffer s) = unat (ValueBytes s)
        \<and> length (MemoryBuffer s) = unat (ValueBytes s) \<longrightarrow>
        (Success (stage_verify P s) \<longleftrightarrow>
           Success s
           \<and> (FlagVerify P \<longrightarrow> ValueBytes s \<noteq> 0 \<and> FileBuffer s = MemoryBuffer s))"
    using stage_verify_Success [of s P] by blast
  have inter: "transfers T P s0 = Some s1 \<and> FlagInteractive P \<longrightarrow>
        (\<exists>code s2. main T P console s0 = Some (code, s2)
           \<and> Success s2 = Success s1
           \<and> prefix (stdout s1 @ [Terminal_banner (ParamAddrGo P)]) (stdout s2)
           \<and> (ParamAddrGo P \<longrightarrow>
                prefix (sent s1 @ bytes ''#\<newline>'' @ bytes ''G''
                          @ printf_hex True 1 (ValueAddrGo P)) (sent s2)))"
    using main_interactive [of T P s0 s1 console] by blast
  have batch: "transfers T P s0 = Some s1 \<and> \<not> FlagInteractive P \<and> \<not> Success s1 \<longrightarrow>
        main T P console s0 =
          Some (Some 1, printf Exit_failure (printf (Text (bytes ''\<newline>'')) s1))"
    using main_batch_failed [of T P s0 s1 console] by blast
  note clear = handshake_Success [of T P s] stage_cpu_Success [of T P s]
    stage_load_Success [of P s] stage_send_Success [of T P s] stage_download_Success [of T P s]
  note recv = stage_receive_Success [of P s]
  show ?thesis
    by (intro conjI gate cpu dump clear verify recv inter batch)
qed

text \<open>
  A run with \<^verbatim>\<open>-v -d\<close> on a file of three bytes against a target whose second byte
  differs: the verify section reports offset 1 and clears \<open>Success\<close>, and the dump section
  after it still prints the downloaded bytes. A send section entered with \<open>Success\<close> cleared
  does nothing. A run with \<^verbatim>\<open>-c -i -g=300000\<close> against a target that does not answer: the
  cpu query fails, and the terminal still sends \<^verbatim>\<open>#\<close> and the go command.
\<close>

theorem failure_gates_later_sections_witness:
  "map_option (\<lambda>s. (Success s, stdout s, stderr s))
     (transfers register_target ((quiet_run 0x300000)\<lparr>FlagVerify := True, FlagDump := True\<rparr>)
        (initial ((\<lambda>a. 0)(0x300000 := 0x41, 0x300001 := 0xFF, 0x300002 := 0x43))
           (Some (bytes ''ABC'')) 0))
   = Some (False,
           [Text (bytes ''\<newline>''), Loaded_file 3, Downloading 0x300000 0,
            Downloaded 0x300000 3, Text (bytes ''\<newline>''),
            Text (bytes ''$300000  41 ff 43                                         A.C             \<newline>'')],
           [Verify_error 0x300000 3 1])
   \<and> stage_send register_target ((quiet_run 0x300000)\<lparr>FlagSend := True\<rparr>)
         ((initial (\<lambda>a. 0) (Some (bytes ''ABC'')) 3)\<lparr>Success := False\<rparr>)
       = Some ((initial (\<lambda>a. 0) (Some (bytes ''ABC'')) 3)\<lparr>Success := False\<rparr>)
   \<and> (\<exists>code s2.
         main silent_target
           ((quiet_run 0x300000)\<lparr>FlagCpu := True, FlagInteractive := True, ParamAddrGo := True,
                                  ValueAddrGo := 0x300000\<rparr>)
           [] (initial () None 0) = Some (code, s2)
         \<and> \<not> Success s2
         \<and> prefix (bytes ''#\<newline>wfffff240,4#\<newline>#\<newline>G300000'') (sent s2))"
proof -
  let ?P = "(quiet_run 0x300000)\<lparr>FlagVerify := True, FlagDump := True\<rparr>"
  let ?s0 = "initial ((\<lambda>a. 0)(0x300000 := 0x41, 0x300001 := 0xFF, 0x300002 := (0x43 :: bit32)))
               (Some (bytes ''ABC'')) 0"
  let ?f = "(initial (\<lambda>a. 0 :: bit32) (Some (bytes ''ABC'')) 3)\<lparr>Success := False\<rparr>"
  let ?Q = "(quiet_run 0x300000)\<lparr>FlagCpu := True, FlagInteractive := True, ParamAddrGo := True,
                                  ValueAddrGo := 0x300000\<rparr>"
  let ?t = "(initial () None 0)
              \<lparr>ResponseCount := 0, Success := False,
               sent := bytes ''#\<newline>wfffff240,4#\<newline>'', polls := 3,
               stdout := [Text (bytes ''wfffff240,4#''), Text (bytes ''\<newline>'')],
               stderr := [Failed_cpu_unresponsive]\<rparr>"
  have run: "map_option (\<lambda>s. (Success s, stdout s, stderr s)) (transfers register_target ?P ?s0)
    = Some (False,
           [Text (bytes ''\<newline>''), Loaded_file 3, Downloading 0x300000 0,
            Downloaded 0x300000 3, Text (bytes ''\<newline>''),
            Text (bytes ''$300000  41 ff 43                                         A.C             \<newline>'')],
           [Verify_error 0x300000 3 1])"
    by (simp add: run_defs dump_rows.simps dump_row.simps)
  have f: "\<not> Success ?f"
    by (simp add: initial_def)
  note send = failure_gates_later_sections
         [where s = ?f and P = "(quiet_run 0x300000)\<lparr>FlagSend := True\<rparr>"
            and T = register_target,
          THEN conjunct1, THEN mp, OF f, THEN conjunct2, THEN conjunct1]
  have tr: "transfers silent_target ?Q (initial () None 0) = Some ?t"
    by (simp add: run_defs)
  have q: "FlagInteractive ?Q" "ParamAddrGo ?Q" "\<not> Success ?t"
    "sent ?t @ bytes ''#\<newline>'' @ bytes ''G'' @ printf_hex True 1 (ValueAddrGo ?Q)
     = bytes ''#\<newline>wfffff240,4#\<newline>#\<newline>G300000''"
    by (simp_all add: run_defs)
  note c2 = conjunct2
  from failure_gates_later_sections
         [where T = silent_target and P = ?Q and ?s0.0 = "initial () None 0" and ?s1.0 = ?t
            and console = "[]",
          THEN c2, THEN c2, THEN c2, THEN c2, THEN c2, THEN c2, THEN c2, THEN c2, THEN c2,
          THEN c2, THEN c2, THEN conjunct1, THEN mp, OF conjI [OF tr q(1)]] q(2)
  obtain code s2 where
    "main silent_target ?Q [] (initial () None 0) = Some (code, s2)"
    "Success s2 = Success ?t"
    "prefix (sent ?t @ bytes ''#\<newline>'' @ bytes ''G'' @ printf_hex True 1 (ValueAddrGo ?Q))
       (sent s2)"
    by blast
  with q(3,4) have
    "\<exists>code s2. main silent_target ?Q [] (initial () None 0) = Some (code, s2)
       \<and> \<not> Success s2
       \<and> prefix (bytes ''#\<newline>wfffff240,4#\<newline>#\<newline>G300000'') (sent s2)"
    by (simp only:) blast
  with run send show ?thesis
    by (intro conjI)
qed

text \<open>
  The claim as the specification words it lets a send go ahead after a failed cpu query. A
  run with \<^verbatim>\<open>-c -s\<close> against a target that does not answer: the cpu query fails, and the
  run ends without the file loaded and with nothing sent but the handshake and the query.
\<close>

theorem failed_cpu_query_stops_send:
  "map_option (\<lambda>s. (Success s, FileBuffer s, sent s, stdout s, stderr s))
     (transfers silent_target ((quiet_run 0x300000)\<lparr>FlagCpu := True, FlagSend := True\<rparr>)
        (initial () (Some (bytes ''ABCDEF'')) 0))
   = Some (False, [], bytes ''#\<newline>wfffff240,4#\<newline>'',
           [Text (bytes ''wfffff240,4#''), Text (bytes ''\<newline>'')],
           [Failed_cpu_unresponsive])"
  by (simp add: run_defs)
section \<open>Download errors and termination (C3)\<close>

text \<open>
  C3. Whatever the target does, \<open>LoadMemory\<close> returns, and it has polled the serial port at
  most 31 times for every byte requested. It returns success only with \<open>MemoryCount\<close> equal
  to the requested count, and then with nothing on \<open>stderr\<close>. An exchange that captures no
  byte ends the download there, at whichever iteration of the loop it happens: the function
  returns failure, in the state that exchange left, with the one message for an unresponsive
  target, which names the bytes downloaded before it. Whenever \<open>ResponseCount\<close> is 0 on the
  return from a download of at least one byte, it has failed in that way. When the loop ran to its end and \<open>MemoryCount\<close> differs
  from the count it has failed with the other message; and a failed \<^verbatim>\<open>calloc\<close> is a third
  failure.
\<close>

theorem LoadMemory_terminates_and_reports:
  "\<exists>ok s'. LoadMemory T P St C s = Some (ok, s')
     \<and> polls s' \<le> polls s + 31 * unat C
     \<and> (ok \<longrightarrow> MemoryCount s' = C \<and> stderr s' = stderr s)
     \<and> (\<forall>l. calloc_ok s C
            \<and> iterates (\<lambda>l. \<not> returned l \<and> Length l < C) (LoadMemory_body T P St C)
                 (LoadMemory_init St C s) l
            \<and> \<not> returned l \<and> Length l < C
            \<and> ResponseCount (snd (GetResponse (FlagTrace P) (read_command T P l))) = 0 \<longrightarrow>
          \<not> ok
          \<and> s' = eprintf (Failed_download_unresponsive St (MemoryCount (globals l)) C)
                    (snd (GetResponse (FlagTrace P) (read_command T P l))))
     \<and> (calloc_ok s C \<and> C \<noteq> 0 \<and> ResponseCount s' = 0 \<longrightarrow>
          \<not> ok \<and> stderr s' = stderr s @ [Failed_download_unresponsive St (MemoryCount s') C])
     \<and> (calloc_ok s C \<and> (C = 0 \<or> ResponseCount s' \<noteq> 0) \<and> MemoryCount s' \<noteq> C \<longrightarrow>
          \<not> ok \<and> stderr s' = stderr s @ [Failed_download_short St (MemoryCount s') C])
     \<and> (\<not> calloc_ok s C \<longrightarrow>
          \<not> ok \<and> stderr s' = stderr s @ [Failed_download_calloc St C])"
proof -
  from LoadMemory_returns [of T P St C s] obtain ok s' where
    r: "LoadMemory T P St C s = Some (ok, s')"
    and p: "polls s' \<le> polls s + 31 * unat C"
    and k: "ok \<longrightarrow> MemoryCount s' = C \<and> stderr s' = stderr s"
    and u: "calloc_ok s C \<and> C \<noteq> 0 \<and> ResponseCount s' = 0 \<longrightarrow>
          \<not> ok \<and> stderr s' = stderr s @ [Failed_download_unresponsive St (MemoryCount s') C]"
    and h: "calloc_ok s C \<and> (C = 0 \<or> ResponseCount s' \<noteq> 0) \<and> MemoryCount s' \<noteq> C \<longrightarrow>
          \<not> ok \<and> stderr s' = stderr s @ [Failed_download_short St (MemoryCount s') C]"
    and c: "\<not> calloc_ok s C \<longrightarrow>
          \<not> ok \<and> stderr s' = stderr s @ [Failed_download_calloc St C]"
    by blast
  have m: "\<not> ok
          \<and> s' = eprintf (Failed_download_unresponsive St (MemoryCount (globals l)) C)
                    (snd (GetResponse (FlagTrace P) (read_command T P l)))"
    if a: "calloc_ok s C"
      and it: "iterates (\<lambda>l. \<not> returned l \<and> Length l < C) (LoadMemory_body T P St C)
                 (LoadMemory_init St C s) l"
      and b: "\<not> returned l \<and> Length l < C"
      and z: "ResponseCount (snd (GetResponse (FlagTrace P) (read_command T P l))) = 0"
    for l
  proof -
    let ?b = "\<lambda>l. \<not> returned l \<and> Length l < C"
    let ?c = "LoadMemory_body T P St C"
    obtain t where t: "while_option ?b ?c (LoadMemory_init St C s) = Some t"
      using LoadMemory_loop_total [of T P St C s] by (auto simp: LoadMemory_loop_def)
    from z have "pending (read_command T P l) = []"
      by (simp add: ResponseCount_zero_iff)
    note body = LoadMemory_body_silent [OF this, of St C]
    then have ret: "returned (?c l)"
      by simp
    have "while_option ?b ?c l = Some t"
      by (rule while_option_from_iterate [OF it t])
    with b have "while_option ?b ?c (?c l) = Some t"
      using while_option_unfold [of ?b ?c l] by simp
    moreover from ret have "while_option ?b ?c (?c l) = Some (?c l)"
      by (subst while_option_unfold) simp
    ultimately have "t = ?c l"
      by simp
    with t a r body show ?thesis
      by (simp add: LoadMemory_def LoadMemory_loop_def)
  qed
  from r p k u h c m show ?thesis
    by blast
qed

text \<open>
  A target that answers one command and then falls silent: the download of six bytes stores
  the four bytes of the first word, and the second exchange, which captures nothing, ends it
  as a failure that reports four bytes of six.
\<close>

theorem LoadMemory_terminates_and_reports_witness:
  "map_option (\<lambda>(ok, s'). (ok, polls s', ResponseCount s', MemoryCount s', MemoryBuffer s', stderr s'))
     (LoadMemory gap_target (quiet_run 0x300000) 0x300000 6 (initial 1 None 6))
   = Some (False, 15, 0, 4, [0x41, 0x42, 0x43, 0x44, 0, 0],
           [Failed_download_unresponsive 0x300000 4 6])"
proof -
  let ?P = "quiet_run 0x300000"
  let ?s = "initial (1 :: nat) None 6"
  let ?l0 = "LoadMemory_init 0x300000 6 ?s"
  let ?l1 = "LoadMemory_body gap_target ?P 0x300000 6 ?l0"
  let ?g = "snd (GetResponse (FlagTrace ?P) (read_command gap_target ?P ?l1))"
  have l1: "Length ?l1 = 4" "\<not> returned ?l1"
    by (simp_all add: run_defs)
  have it: "iterates (\<lambda>l. \<not> returned l \<and> Length l < 6) (LoadMemory_body gap_target ?P 0x300000 6)
              ?l0 ?l1"
    by (rule iterates.step [OF iterates.start]) simp
  have z: "ResponseCount ?g = 0"
    by (simp add: run_defs)
  have a: "calloc_ok ?s 6"
    by (simp add: initial_def)
  from LoadMemory_terminates_and_reports
         [where T = gap_target and P = ?P and St = "0x300000" and C = 6 and s = ?s]
  obtain ok s' where r: "LoadMemory gap_target ?P 0x300000 6 ?s = Some (ok, s')"
    and m: "\<forall>l. calloc_ok ?s 6
            \<and> iterates (\<lambda>l. \<not> returned l \<and> Length l < 6) (LoadMemory_body gap_target ?P 0x300000 6)
                 ?l0 l
            \<and> \<not> returned l \<and> Length l < 6
            \<and> ResponseCount (snd (GetResponse (FlagTrace ?P) (read_command gap_target ?P l))) = 0 \<longrightarrow>
          \<not> ok
          \<and> s' = eprintf (Failed_download_unresponsive 0x300000 (MemoryCount (globals l)) 6)
                    (snd (GetResponse (FlagTrace ?P) (read_command gap_target ?P l)))"
    by blast
  from m [rule_format, of ?l1] a it l1 z
  have "\<not> ok" and s': "s' = eprintf (Failed_download_unresponsive 0x300000
                                     (MemoryCount (globals ?l1)) 6) ?g"
    by simp_all
  have e: "(polls s', ResponseCount s', MemoryCount s', MemoryBuffer s', stderr s')
           = (15, 0, 4, [0x41, 0x42, 0x43, 0x44, 0, 0], [Failed_download_unresponsive 0x300000 4 6])"
    unfolding s' by (simp add: run_defs)
  from r \<open>\<not> ok\<close> e show ?thesis
    by simp
qed

section \<open>The chunk width (C2)\<close>

text \<open>
  C2. \<^verbatim>\<open>main\<close> calls \<open>LoadMemory\<close> with the global \<open>ValueBytes\<close> as the count and with
  \<open>MemoryCount\<close> still 0. At the top of every iteration of the download loop the chunk
  width is then 4 if at least 4 bytes remain and 1 if fewer do; \<open>MemoryCount\<close> equals the
  bytes downloaded so far and is at most the count; and an iteration adds the chunk width
  to it when the target answered and nothing when it did not. The send loop has the same
  chunk width at the top of every iteration, has sent at most \<open>ValueBytes\<close> bytes, and every
  iteration sends the chunk width.
\<close>

theorem chunk_width_invariant:
  "(ValueBytes s = C \<and> MemoryCount s = 0
    \<and> iterates (\<lambda>l. \<not> returned l \<and> Length l < C) (LoadMemory_body T P St C)
         (LoadMemory_init St C s) l \<longrightarrow>
      Chunk l = (if 4 \<le> unat C - unat (Length l) then 4 else 1)
      \<and> unat (MemoryCount (globals l)) = unat (Length l)
      \<and> unat (MemoryCount (globals l)) \<le> unat C
      \<and> (\<not> returned l \<and> Length l < C \<longrightarrow>
            unat (MemoryCount (globals (LoadMemory_body T P St C l))) =
              unat (MemoryCount (globals l))
              + (if ResponseCount (globals (LoadMemory_body T P St C l)) \<noteq> 0
                 then unat (Chunk l) else 0)))
   \<and> (iterates (\<lambda>l. Length l < ValueBytes (globals l)) (send_body T P) (send_init P s) l' \<longrightarrow>
        Chunk l' = (if 4 \<le> unat (ValueBytes s) - unat (Length l') then 4 else 1)
        \<and> unat (Length l') \<le> unat (ValueBytes s)
        \<and> (Length l' < ValueBytes s \<longrightarrow>
              unat (Length (send_body T P l')) = unat (Length l') + unat (Chunk l')))"
proof (intro conjI impI)
  assume a: "ValueBytes s = C \<and> MemoryCount s = 0
    \<and> iterates (\<lambda>l. \<not> returned l \<and> Length l < C) (LoadMemory_body T P St C)
         (LoadMemory_init St C s) l"
  then have I: "Length l \<le> C
         \<and> Chunk l = (if 4 \<le> unat C - unat (Length l) then 4 else 1)
         \<and> MemoryCount (globals l) = Length l
         \<and> length (MemoryBuffer (globals l)) = unat C
         \<and> Address l = St + Length l"
    using LoadMemory_invariant [of s C T P St l] by blast
  from I show "Chunk l = (if 4 \<le> unat C - unat (Length l) then 4 else 1)"
    by simp
  from I show "unat (MemoryCount (globals l)) = unat (Length l)"
    by simp
  from I show "unat (MemoryCount (globals l)) \<le> unat C"
    by (simp add: word_le_nat_alt)
  assume b: "\<not> returned l \<and> Length l < C"
  show "unat (MemoryCount (globals (LoadMemory_body T P St C l))) =
          unat (MemoryCount (globals l))
          + (if ResponseCount (globals (LoadMemory_body T P St C l)) \<noteq> 0
             then unat (Chunk l) else 0)"
  proof (cases "pending (read_command T P l) = []")
    case True
    then have "ResponseCount (snd (GetResponse (FlagTrace P) (read_command T P l))) = 0"
      by (simp add: ResponseCount_zero_iff)
    with True show ?thesis
      by (simp add: LoadMemory_body_silent)
  next
    case False
    note st = chunk_step [of "Length l" C "Chunk l"]
    from I b st(1) show ?thesis
      by (simp add: LoadMemory_body_answer [OF False])
  qed
next
  assume it: "iterates (\<lambda>l. Length l < ValueBytes (globals l)) (send_body T P) (send_init P s) l'"
  note I = send_invariant [OF it]
  from I show "Chunk l' = (if 4 \<le> unat (ValueBytes s) - unat (Length l') then 4 else 1)"
    by simp
  from I show "unat (Length l') \<le> unat (ValueBytes s)"
    by (simp add: word_le_nat_alt)
  assume "Length l' < ValueBytes s"
  from chunk_step(1) [OF this] I
  show "unat (Length (send_body T P l')) = unat (Length l') + unat (Chunk l')"
    by (simp add: send_body_simps)
qed

text \<open>
  Six bytes against the register target: after the first iteration of either loop four
  bytes are done and the chunk width is 1.
\<close>

theorem chunk_width_invariant_witness:
  "Chunk (LoadMemory_body register_target (quiet_run 0x300000) 0x300000 6
            (LoadMemory_init 0x300000 6 (initial (\<lambda>a. 0) None 6))) = 1
   \<and> unat (MemoryCount (globals (LoadMemory_body register_target (quiet_run 0x300000) 0x300000 6
            (LoadMemory_init 0x300000 6 (initial (\<lambda>a. 0) None 6))))) = 4
   \<and> Chunk (send_body register_target (quiet_run 0x300000)
              (send_init (quiet_run 0x300000)
                 ((initial (\<lambda>a. 0) None 6)\<lparr>FileBuffer := bytes ''ABCDEF''\<rparr>))) = 1
   \<and> unat (Length (send_body register_target (quiet_run 0x300000)
              (send_init (quiet_run 0x300000)
                 ((initial (\<lambda>a. 0) None 6)\<lparr>FileBuffer := bytes ''ABCDEF''\<rparr>)))) = 4"
proof -
  let ?P = "quiet_run 0x300000"
  let ?s = "initial (\<lambda>a. 0 :: bit32) None 6"
  let ?f = "?s\<lparr>FileBuffer := bytes ''ABCDEF''\<rparr>"
  let ?d0 = "LoadMemory_init 0x300000 6 ?s"
  let ?d1 = "LoadMemory_body register_target ?P 0x300000 6 ?d0"
  let ?u0 = "send_init ?P ?f"
  let ?u1 = "send_body register_target ?P ?u0"
  have s: "ValueBytes ?s = 6 \<and> MemoryCount ?s = 0"
    by (simp add: initial_def)
  have L1: "Length ?d1 = 4"
    by (simp add: run_defs)
  have L2: "Length ?u1 = 4"
    by (simp add: send_body_simps initial_def)
  note L = L1 L2
  have d: "iterates (\<lambda>l. \<not> returned l \<and> Length l < 6)
             (LoadMemory_body register_target ?P 0x300000 6) ?d0 ?d1"
    by (rule iterates.step [OF iterates.start]) simp
  have u: "iterates (\<lambda>l. Length l < ValueBytes (globals l)) (send_body register_target ?P) ?u0 ?u1"
    by (rule iterates.step [OF iterates.start]) (simp add: initial_def)
  have sd: "ValueBytes ?s = 6 \<and> MemoryCount ?s = 0
      \<and> iterates (\<lambda>l. \<not> returned l \<and> Length l < 6)
             (LoadMemory_body register_target ?P 0x300000 6) ?d0 ?d1"
    using s d by (intro conjI) (rule conjunct1, assumption, rule conjunct2, assumption, assumption)
  note D = chunk_width_invariant
         [where s = ?s and C = 6 and T = register_target and P = ?P and St = "0x300000"
            and l = ?d1 and l' = ?d0, THEN conjunct1, THEN mp, OF sd]
  note U = chunk_width_invariant
         [where s = ?f and C = 6 and T = register_target and P = ?P and St = "0x300000"
            and l = ?d0 and l' = ?u1, THEN conjunct2, THEN mp, OF u]
  have "Chunk ?d1 = 1"
    using D [THEN conjunct1] by (simp add: L1)
  moreover have "unat (MemoryCount (globals ?d1)) = 4"
    using D [THEN conjunct2, THEN conjunct1] by (simp add: L1)
  moreover have "Chunk ?u1 = 1"
    using U [THEN conjunct1] unfolding L2 by (simp add: initial_def)
  moreover have "unat (Length ?u1) = 4"
    unfolding L2 by simp
  ultimately show ?thesis
    by (intro conjI)
qed

section \<open>Upload and download (C1)\<close>

text \<open>
  C1. The target is \<open>register_target\<close>: a write command stores the value at the address,
  a read command answers with the value stored there. The file buffer holds \<open>bs\<close>, the
  byte count \<open>ValueBytes\<close> is its length (a \<^verbatim>\<open>bit32\<close>, so below \<open>2\<^sup>3\<^sup>2\<close>), nothing is
  pending from the target, \<open>MemoryCount\<close> is the 0 it is initialised to and \<^verbatim>\<open>calloc\<close>
  succeeds. Then, for every start address and whatever the registers held, the send loop
  ends, \<open>LoadMemory\<close> for the same address and count on the state it leaves returns true,
  and \<open>MemoryBuffer\<close> is \<open>bs\<close>. The packing of the send loop puts the first byte of a chunk
  into the lowest eight bits of the value and the next ones above it, and the stores of the
  download loop, applied to a packed value, give back the bytes of the chunk in their order,
  for the chunk widths 4 and 1.
\<close>

theorem upload_download_roundtrip:
  fixes bs :: "byte list" and s :: "(bit32 \<Rightarrow> bit32) state"
  assumes "length bs < 2 ^ 32"
    and "FileBuffer s = bs" and "ValueBytes s = of_nat (length bs)"
    and "MemoryCount s = 0" and "pending s = []" and "calloc_ok s (ValueBytes s)"
  shows "(\<exists>l s'. send_loop register_target P (send_init P s) = Some l
           \<and> LoadMemory register_target P (ValueAddrStart P) (ValueBytes s) (globals l)
               = Some (True, s')
           \<and> MemoryCount s' = ValueBytes s
           \<and> MemoryBuffer s' = bs)
     \<and> (\<forall>p. p + 4 \<le> length bs \<longrightarrow>
           fst (pack_bytes 4 0 bs (0, of_nat p)) =
             ucast (bs ! p) OR push_bit 8 (ucast (bs ! (p + 1)))
             OR push_bit 16 (ucast (bs ! (p + 2))) OR push_bit 24 (ucast (bs ! (p + 3))))
     \<and> (\<forall>p. p < length bs \<longrightarrow> fst (pack_bytes 1 0 bs (0, of_nat p)) = ucast (bs ! p))
     \<and> (\<forall>p k. (k = 1 \<or> k = 4) \<and> p + k \<le> length bs \<longrightarrow>
           MemoryBuffer (store_bytes k (fst (pack_bytes k 0 bs (0, of_nat p)))
                           (s\<lparr>MemoryBuffer := replicate k 0, MemoryCount := 0\<rparr>))
           = take k (drop p bs))"
proof (intro conjI allI impI)
  let ?n = "length bs"
  let ?St = "ValueAddrStart P"
  let ?l0 = "send_init P s"
  have un: "unat (of_nat ?n :: bit32) = ?n"
    using assms(1) by (rule unat_of_nat32)
  have ic: "(if (3 :: bit32) < of_nat ?n then 4 else 1) = (if 4 \<le> ?n - 0 then 4 else (1 :: bit32))"
    using initial_chunk [of "of_nat ?n"] by (simp only: un diff_zero)
  have U: "FileBuffer (globals ?l0) = bs" "ValueBytes (globals ?l0) = of_nat ?n"
    "Length ?l0 = of_nat 0" "0 \<le> ?n"
    "Chunk ?l0 = (if 4 \<le> ?n - 0 then 4 else 1)"
    "Address ?l0 = ?St + of_nat 0" "pending (globals ?l0) = []"
    using ic by (simp_all add: assms)
  from roundtrip_from [OF assms(1) U, of P] obtain l where
    l: "send_loop register_target P ?l0 = Some l"
    and f: "pending (globals l) = []" "calloc_ok (globals l) = calloc_ok (globals ?l0)"
      "MemoryCount (globals l) = MemoryCount (globals ?l0)"
      "ValueBytes (globals l) = of_nat ?n"
    and dl: "\<forall>d :: (bit32 \<Rightarrow> bit32) xfer.
            Length d = of_nat 0 \<and> Chunk d = (if 4 \<le> ?n - 0 then 4 else 1)
            \<and> Address d = ?St + of_nat 0 \<and> MemoryCount (globals d) = of_nat 0
            \<and> length (MemoryBuffer (globals d)) = ?n \<and> pending (globals d) = []
            \<and> \<not> returned d
            \<and> (\<forall>j. 0 \<le> j \<and> j < ?n \<longrightarrow>
                   tstate (globals d) (?St + of_nat j) = tstate (globals l) (?St + of_nat j)) \<longrightarrow>
            (\<exists>d'. LoadMemory_loop register_target P ?St (of_nat ?n) d = Some d'
               \<and> \<not> returned d' \<and> MemoryCount (globals d') = of_nat ?n
               \<and> MemoryBuffer (globals d')
                   = take 0 (MemoryBuffer (globals d)) @ drop 0 bs)"
    by blast
  let ?d = "LoadMemory_init ?St (of_nat ?n) (globals l)"
  have D: "Length ?d = of_nat 0" "Chunk ?d = (if 4 \<le> ?n - 0 then 4 else 1)"
    "Address ?d = ?St + of_nat 0" "MemoryCount (globals ?d) = of_nat 0"
    "length (MemoryBuffer (globals ?d)) = ?n" "pending (globals ?d) = []"
    "\<not> returned ?d"
    "\<forall>j. 0 \<le> j \<and> j < ?n \<longrightarrow>
       tstate (globals ?d) (?St + of_nat j) = tstate (globals l) (?St + of_nat j)"
    using ic by (simp_all add: f assms un)
  from dl [rule_format, of ?d] D obtain d' where
    d': "LoadMemory_loop register_target P ?St (of_nat ?n) ?d = Some d'"
    "\<not> returned d'" "MemoryCount (globals d') = of_nat ?n"
    "MemoryBuffer (globals d') = take 0 (MemoryBuffer (globals ?d)) @ drop 0 bs"
    by blast
  from assms(6) f(2) have "calloc_ok (globals l) (of_nat ?n)"
    by (simp add: assms(3))
  with d' have "LoadMemory register_target P ?St (of_nat ?n) (globals l) = Some (True, globals d')"
    by (simp add: LoadMemory_def)
  with l d'(3,4) show "\<exists>l s'. send_loop register_target P (send_init P s) = Some l
           \<and> LoadMemory register_target P (ValueAddrStart P) (ValueBytes s) (globals l)
               = Some (True, s')
           \<and> MemoryCount s' = ValueBytes s
           \<and> MemoryBuffer s' = bs"
    by (simp add: assms(3))
next
  fix p
  assume "p + 4 \<le> length bs"
  from pack_bytes4 [OF this assms(1)]
  show "fst (pack_bytes 4 0 bs (0, of_nat p)) =
             ucast (bs ! p) OR push_bit 8 (ucast (bs ! (p + 1)))
             OR push_bit 16 (ucast (bs ! (p + 2))) OR push_bit 24 (ucast (bs ! (p + 3)))" .
next
  fix p
  assume "p < length bs"
  from pack_bytes1 [OF this assms(1)]
  show "fst (pack_bytes 1 0 bs (0, of_nat p)) = ucast (bs ! p)" .
next
  fix p k
  assume a: "(k = 1 \<or> k = 4) \<and> p + k \<le> length bs"
  let ?s = "s\<lparr>MemoryBuffer := replicate k 0, MemoryCount := 0\<rparr>"
  from a have b: "unat (MemoryCount ?s) + k \<le> length (MemoryBuffer ?s)"
    "length (MemoryBuffer ?s) < 2 ^ 32"
    by auto
  from a have u: "map (\<lambda>i. ucast (drop_bit (8 * i) (fst (pack_bytes k 0 bs (0, of_nat p))) AND 0xff))
           [0..<k] = take k (drop p bs)"
    using unpack_pack [of k p bs] assms(1) by blast
  show "MemoryBuffer (store_bytes k (fst (pack_bytes k 0 bs (0, of_nat p))) ?s)
        = take k (drop p bs)"
    unfolding store_bytes_buffer [OF b] u by simp
qed

text \<open>
  Six bytes at \<open>0x300000\<close>: the send loop writes one word and two bytes, and the download
  brings the six bytes back.
\<close>

theorem upload_download_roundtrip_witness:
  "map_option (\<lambda>l. sent (globals l))
     (send_loop register_target (quiet_run 0x300000)
        (send_init (quiet_run 0x300000)
           ((initial (\<lambda>a. 0) None 6)\<lparr>FileBuffer := bytes ''ABCDEF''\<rparr>)))
   = Some (bytes ''W300000,44434241#\<newline>O300004,45#\<newline>O300005,46#\<newline>'')
   \<and> (\<exists>l s'. send_loop register_target (quiet_run 0x300000)
                 (send_init (quiet_run 0x300000)
                    ((initial (\<lambda>a. 0) None 6)\<lparr>FileBuffer := bytes ''ABCDEF''\<rparr>)) = Some l
          \<and> LoadMemory register_target (quiet_run 0x300000) 0x300000 6 (globals l)
              = Some (True, s')
          \<and> MemoryCount s' = 6
          \<and> MemoryBuffer s' = bytes ''ABCDEF'')"
proof -
  let ?Q = "quiet_run 0x300000"
  let ?f = "(initial (\<lambda>a. 0 :: bit32) None 6)\<lparr>FileBuffer := bytes ''ABCDEF''\<rparr>"
  have wire: "map_option (\<lambda>l. sent (globals l)) (send_loop register_target ?Q (send_init ?Q ?f))
    = Some (bytes ''W300000,44434241#\<newline>O300004,45#\<newline>O300005,46#\<newline>'')"
    by (simp add: run_defs)
  have h: "length (bytes ''ABCDEF'') < 2 ^ 32" "FileBuffer ?f = bytes ''ABCDEF''"
    "ValueBytes ?f = of_nat (length (bytes ''ABCDEF''))" "MemoryCount ?f = 0" "pending ?f = []"
    "calloc_ok ?f (ValueBytes ?f)"
    by (simp_all add: initial_def)
  have v: "ValueBytes ?f = 6" "ValueAddrStart ?Q = 0x300000"
    by (simp_all add: initial_def quiet_run_def)
  note r = upload_download_roundtrip [OF h, of ?Q, THEN conjunct1]
  from r have "\<exists>l s'. send_loop register_target ?Q (send_init ?Q ?f) = Some l
          \<and> LoadMemory register_target ?Q 0x300000 6 (globals l) = Some (True, s')
          \<and> MemoryCount s' = 6
          \<and> MemoryBuffer s' = bytes ''ABCDEF''"
    unfolding v .
  with wire show ?thesis
    by (intro conjI)
qed

end
